theory Spec2Isabelle
  imports Complex_Main
begin

section \<open>The summary block: data model\<close>

text \<open>
  The block of \<^verbatim>\<open>frontend/index.js\<close> reads the URL cell of every record of a table,
  asks the SMMRY service for a summary of that URL, and writes the summaries back in
  batches. Two functions carry the logic: \<^verbatim>\<open>getSummariesAsync\<close> (the fetch loop) and
  \<^verbatim>\<open>updateRecordsInBatchesAsync\<close> (the batched writer); \<^verbatim>\<open>onButtonClick\<close> composes them.

  JavaScript strings are modelled as \<^typ>\<open>string\<close>; the only string operations of the
  source are concatenation, the emptiness test of a truthiness check and strict equality
  with an ASCII literal, which do not depend on the encoding.
\<close>

subsection \<open>Constants (lines 5 to 12)\<close>

definition TABLE_NAME :: string where
  "TABLE_NAME = ''Urls''"

definition URL_FIELD_NAME :: string where
  "URL_FIELD_NAME = ''URL''"

definition SUMMARY_FIELD_NAME :: string where
  "SUMMARY_FIELD_NAME = ''Summary''"

definition MAX_RECORDS_PER_UPDATE :: nat where
  "MAX_RECORDS_PER_UPDATE = 50"

definition API_ENDPOINT :: string where
  "API_ENDPOINT = ''https://api.smmry.com/''"

definition CORS_PROXY :: string where
  "CORS_PROXY = ''https://cors-anywhere.herokuapp.com/''"

subsection \<open>JavaScript values\<close>

text \<open>
  The value \<^verbatim>\<open>response.json()\<close> resolves with is a parsed JSON text. Numbers are never
  computed with, so their carrier does not matter; an object keeps its members in the
  order of the text. A JavaScript value that may be \<^verbatim>\<open>undefined\<close> is a \<open>json option\<close>,
  with \<open>None\<close> for \<^verbatim>\<open>undefined\<close>.
\<close>

datatype json =
    JNull
  | JBool bool
  | JNum int
  | JStr string
  | JArr "json list"
  | JObj "(string \<times> json) list"

type_synonym js_value = "json option"

text \<open>
  What stops an \<^verbatim>\<open>async\<close> function at an \<^verbatim>\<open>await\<close> or at a property read: the awaited
  promise does not resolve (it rejects, or never settles), or a property of \<^verbatim>\<open>null\<close> is
  read. None of them is caught anywhere in the source, so each ends the run.
\<close>

datatype fault =
    FetchFault      \<comment> \<open>\<^verbatim>\<open>await fetch(requestUrl)\<close> does not resolve\<close>
  | JsonFault       \<comment> \<open>\<^verbatim>\<open>await response.json()\<close> does not resolve: the body is not JSON\<close>
  | TypeError       \<comment> \<open>a property of \<^verbatim>\<open>null\<close> is read\<close>
  | WriteFault      \<comment> \<open>\<^verbatim>\<open>await table.updateRecordsAsync(batch)\<close> does not resolve\<close>

text \<open>
  The property read \<^verbatim>\<open>v.key\<close> on a parsed JSON value, for a key that no prototype
  defines (the two keys the source reads are of that kind): \<^verbatim>\<open>null\<close> throws, an object
  gives its member (the last one of that name, as \<^verbatim>\<open>JSON.parse\<close> keeps it) or
  \<^verbatim>\<open>undefined\<close>, every other value gives \<^verbatim>\<open>undefined\<close>.
\<close>

fun get_prop :: "json \<Rightarrow> string \<Rightarrow> fault + js_value" where
  "get_prop JNull key = Inl TypeError"
| "get_prop (JObj members) key = Inr (map_of (rev members) key)"
| "get_prop v key = Inr None"

subsection \<open>Records of the table and record updates\<close>

text \<open>
  A record of the host table, as far as the source uses it: \<^verbatim>\<open>record.id\<close> and
  \<^verbatim>\<open>record.getCellValueAsString(field)\<close>. A field object is modelled by its name.
\<close>

record airtable_record =
  record_id :: string
  getCellValueAsString :: "string \<Rightarrow> string"

text \<open>
  The object literal of lines 118 to 123, \<^verbatim>\<open>{id: record.id, fields: {[SUMMARY_FIELD_NAME]: ...}}\<close>.
  The inner object is kept as the list of its own members, so that the keys it has can be
  counted; a member whose value is \<^verbatim>\<open>undefined\<close> is still a member.
\<close>

record record_update =
  update_id :: string
  update_fields :: "(string \<times> js_value) list"

section \<open>The fetch loop: \<^verbatim>\<open>getSummariesAsync\<close> (lines 101 to 127)\<close>

text \<open>
  The summarization service is the environment of the loop: the \<open>k\<close>-th request of a run
  (counted from 0), sent to the URL \<open>u\<close>, is answered by \<open>service k u\<close>: a fault, or the
  parsed body.
\<close>

type_synonym service = "nat \<Rightarrow> string \<Rightarrow> fault + json"

text \<open>
  The state the loop threads: the React state \<^verbatim>\<open>invalidApi\<close> that \<^verbatim>\<open>setInvalidApi\<close>
  writes, the request URLs passed to \<^verbatim>\<open>fetch\<close> so far, and the local array
  \<^verbatim>\<open>recordUpdates\<close>.
\<close>

record fetch_state =
  invalidApi :: bool
  requests :: "string list"
  recordUpdates :: "record_update list"

text \<open>
  What the promise of \<^verbatim>\<open>getSummariesAsync\<close> does: \<open>Inl f\<close> when the run is stopped by
  the fault \<open>f\<close>, \<open>Inr None\<close> for the bare \<^verbatim>\<open>return;\<close> of line 113 (the value
  \<^verbatim>\<open>undefined\<close>), \<open>Inr (Some us)\<close> for \<^verbatim>\<open>return recordUpdates\<close> of line 126.

  \<^verbatim>\<open>numOfSentences\<close> is the text of an input box, always a string; it is truthy exactly
  when it is not empty, and the number 7 prints as \<^verbatim>\<open>7\<close> in the template literal.
\<close>

fun for_records ::
  "service \<Rightarrow> string \<Rightarrow> string \<Rightarrow> string \<Rightarrow> airtable_record list \<Rightarrow> fetch_state
    \<Rightarrow> (fault + record_update list option) \<times> fetch_state" where
  "for_records service titleField apiKey numOfSentences [] s = (Inr (Some (recordUpdates s)), s)"
| "for_records service titleField apiKey numOfSentences (r # rest) s =
    (let url = getCellValueAsString r titleField;
         requestUrl = CORS_PROXY @ API_ENDPOINT @ ''&SM_API_KEY='' @ apiKey @
           ''&SM_LENGTH='' @ (if numOfSentences \<noteq> [] then numOfSentences else ''7'') @
           ''&SM_URL='' @ url;
         s1 = s\<lparr>requests := requests s @ [requestUrl]\<rparr>
     in case service (length (requests s)) requestUrl of
          Inl f \<Rightarrow> (Inl f, s1)
        | Inr pageSummary \<Rightarrow>
            (case get_prop pageSummary ''sm_api_message'' of
               Inl f \<Rightarrow> (Inl f, s1)
             | Inr message \<Rightarrow>
                 if message = Some (JStr ''INVALID API KEY'')
                 then (Inr None, s1\<lparr>invalidApi := True\<rparr>)
                 else
                   (case get_prop pageSummary ''sm_api_content'' of
                      Inl f \<Rightarrow> (Inl f, s1\<lparr>invalidApi := False\<rparr>)
                    | Inr content \<Rightarrow>
                        for_records service titleField apiKey numOfSentences rest
                          (s1\<lparr>invalidApi := False,
                              recordUpdates := recordUpdates s @
                                [\<lparr>update_id = record_id r,
                                  update_fields = [(SUMMARY_FIELD_NAME, content)]\<rparr>]\<rparr>))))"

text \<open>
  The function itself: a fresh \<^verbatim>\<open>recordUpdates\<close>, then the loop. The flag is whatever
  the previous runs left. The parameter \<^verbatim>\<open>table\<close> of the source is not used by its body.
\<close>

definition getSummariesAsync ::
  "service \<Rightarrow> string \<Rightarrow> airtable_record list \<Rightarrow> string \<Rightarrow> string \<Rightarrow> bool
    \<Rightarrow> (fault + record_update list option) \<times> fetch_state" where
  "getSummariesAsync service titleField records apiKey numOfSentences flag =
     for_records service titleField apiKey numOfSentences records
       \<lparr>invalidApi = flag, requests = [], recordUpdates = []\<rparr>"

section \<open>The batched writer: \<^verbatim>\<open>updateRecordsInBatchesAsync\<close> (lines 129 to 141)\<close>

text \<open>
  \<^verbatim>\<open>xs.slice(i, j)\<close> for indices that are not negative: the elements at the positions
  from \<open>i\<close> up to, and without, the smaller of \<open>j\<close> and the length.
\<close>

definition slice :: "'a list \<Rightarrow> nat \<Rightarrow> nat \<Rightarrow> 'a list" where
  "slice xs i j = drop i (take j xs)"

text \<open>
  The host's write call is the environment of the writer: \<open>host k batch\<close> tells whether
  the \<open>k\<close>-th call of a run (counted from 0), made with \<open>batch\<close>, resolves.
\<close>

type_synonym host = "nat \<Rightarrow> record_update list \<Rightarrow> fault + unit"

text \<open>
  The state of the \<^verbatim>\<open>while\<close> loop: the index \<^verbatim>\<open>i\<close> (here \<open>loop_i\<close>) and the batches passed to
  \<^verbatim>\<open>table.updateRecordsAsync\<close> so far, in call order. The index is a JavaScript number;
  it stays far below \<open>2\<^sup>5\<^sup>3\<close>, where the addition is exact, because an array has fewer than
  \<open>2\<^sup>3\<^sup>2\<close> elements.
\<close>

record write_state =
  loop_i :: nat
  calls :: "record_update list list"

function while_batches ::
  "host \<Rightarrow> record_update list \<Rightarrow> write_state \<Rightarrow> (fault + unit) \<times> write_state" where
  "while_batches host updates w =
     (if loop_i w < length updates then
        (let updateBatch = slice updates (loop_i w) (loop_i w + MAX_RECORDS_PER_UPDATE);
             w1 = w\<lparr>calls := calls w @ [updateBatch]\<rparr>
         in case host (length (calls w)) updateBatch of
              Inl f \<Rightarrow> (Inl f, w1)
            | Inr u \<Rightarrow> while_batches host updates (w1\<lparr>loop_i := loop_i w + MAX_RECORDS_PER_UPDATE\<rparr>))
      else (Inr (), w))"
  by pat_completeness auto
termination
  by (relation "measure (\<lambda>(host, updates, w). length updates - loop_i w)")
     (auto simp: MAX_RECORDS_PER_UPDATE_def)

text \<open>
  The parameter \<^verbatim>\<open>recordUpdates\<close> (here \<open>updates\<close>) is what \<^verbatim>\<open>getSummariesAsync\<close> returned: \<^verbatim>\<open>undefined\<close> is falsy, an
  array is truthy even when it is empty.
\<close>

definition updateRecordsInBatchesAsync ::
  "host \<Rightarrow> record_update list option \<Rightarrow> (fault + unit) \<times> write_state" where
  "updateRecordsInBatchesAsync host updates =
     (case updates of
        None \<Rightarrow> (Inr (), \<lparr>loop_i = 0, calls = []\<rparr>)
      | Some us \<Rightarrow> while_batches host us \<lparr>loop_i = 0, calls = []\<rparr>)"

section \<open>The run: \<^verbatim>\<open>onButtonClick\<close> (lines 39 to 44)\<close>

text \<open>
  One click: the fetch loop, then the writer on what the loop returned. A fault in either
  leaves \<^verbatim>\<open>isUpdateInProgress\<close> set, since line 43 is not reached.
\<close>

record run =
  outcome :: "fault + unit"
  isUpdateInProgress :: bool
  invalidApi_after :: bool
  fetch_calls :: "string list"
  write_calls :: "record_update list list"

definition onButtonClick ::
  "service \<Rightarrow> host \<Rightarrow> string \<Rightarrow> airtable_record list \<Rightarrow> string \<Rightarrow> string \<Rightarrow> bool \<Rightarrow> run" where
  "onButtonClick service host titleField records apiKey numOfSentences flag =
     (case getSummariesAsync service titleField records apiKey numOfSentences flag of
        (Inl f, s) \<Rightarrow>
          \<lparr>outcome = Inl f, isUpdateInProgress = True, invalidApi_after = invalidApi s,
           fetch_calls = requests s, write_calls = []\<rparr>
      | (Inr updates, s) \<Rightarrow>
          (case updateRecordsInBatchesAsync host updates of
             (Inl f, w) \<Rightarrow>
               \<lparr>outcome = Inl f, isUpdateInProgress = True, invalidApi_after = invalidApi s,
                fetch_calls = requests s, write_calls = calls w\<rparr>
           | (Inr u, w) \<Rightarrow>
               \<lparr>outcome = Inr (), isUpdateInProgress = False, invalidApi_after = invalidApi s,
                fetch_calls = requests s, write_calls = calls w\<rparr>))"

section \<open>Vocabulary of the properties\<close>

subsection \<open>Requests and responses\<close>

text \<open>
  The URL of line 106 for one cell value, as a function of its own, so that the
  properties can name the request made for a row.
\<close>

definition request_url :: "string \<Rightarrow> string \<Rightarrow> string \<Rightarrow> string" where
  "request_url apiKey numOfSentences url =
     CORS_PROXY @ API_ENDPOINT @ ''&SM_API_KEY='' @ apiKey @
     ''&SM_LENGTH='' @ (if numOfSentences \<noteq> [] then numOfSentences else ''7'') @
     ''&SM_URL='' @ url"

text \<open>The answer of the service when the request for the record \<open>r\<close> is the \<open>k\<close>-th of the run.\<close>

definition response_at ::
  "service \<Rightarrow> string \<Rightarrow> string \<Rightarrow> string \<Rightarrow> nat \<Rightarrow> airtable_record \<Rightarrow> fault + json" where
  "response_at service titleField apiKey numOfSentences k r =
     service k (request_url apiKey numOfSentences (getCellValueAsString r titleField))"

text \<open>
  A response carries the sentinel when a body arrived and its \<^verbatim>\<open>sm_api_message\<close> is the
  string \<^verbatim>\<open>INVALID API KEY\<close>. Its message was read when a body arrived that is not
  \<^verbatim>\<open>null\<close>. It is summarised when its message was read and is not the sentinel.
\<close>

definition carries_sentinel :: "fault + json \<Rightarrow> bool" where
  "carries_sentinel resp =
     (case resp of
        Inl f \<Rightarrow> False
      | Inr body \<Rightarrow> get_prop body ''sm_api_message'' = Inr (Some (JStr ''INVALID API KEY'')))"

definition message_read :: "fault + json \<Rightarrow> bool" where
  "message_read resp =
     (case resp of
        Inl f \<Rightarrow> False
      | Inr body \<Rightarrow> (case get_prop body ''sm_api_message'' of Inl f \<Rightarrow> False | Inr message \<Rightarrow> True))"

definition summarised :: "fault + json \<Rightarrow> bool" where
  "summarised resp =
     (case resp of
        Inl f \<Rightarrow> False
      | Inr body \<Rightarrow>
          (case get_prop body ''sm_api_message'' of
             Inl f \<Rightarrow> False
           | Inr message \<Rightarrow> message \<noteq> Some (JStr ''INVALID API KEY'')))"

text \<open>The value of \<^verbatim>\<open>pageSummary.sm_api_content\<close>, \<open>None\<close> when the member is absent.\<close>

definition content_of :: "fault + json \<Rightarrow> js_value" where
  "content_of resp =
     (case resp of
        Inl f \<Rightarrow> None
      | Inr body \<Rightarrow> (case get_prop body ''sm_api_content'' of Inl f \<Rightarrow> None | Inr content \<Rightarrow> content))"

text \<open>The fault that a response which is neither summarised nor a sentinel stops the run with.\<close>

definition fault_of :: "fault + json \<Rightarrow> fault" where
  "fault_of resp = (case resp of Inl f \<Rightarrow> f | Inr body \<Rightarrow> TypeError)"

definition summary_update :: "airtable_record \<Rightarrow> fault + json \<Rightarrow> record_update" where
  "summary_update r resp =
     \<lparr>update_id = record_id r, update_fields = [(SUMMARY_FIELD_NAME, content_of resp)]\<rparr>"

text \<open>
  What the loop inspects of a response: the fault, or the two members it reads. Two
  services with the same view differ only in what the loop never looks at.
\<close>

definition view :: "fault + json \<Rightarrow> fault + (fault + js_value) \<times> (fault + js_value)" where
  "view resp =
     (case resp of
        Inl f \<Rightarrow> Inl f
      | Inr body \<Rightarrow> Inr (get_prop body ''sm_api_message'', get_prop body ''sm_api_content''))"

text \<open>
  The shape of a run of the loop over the records \<open>rs\<close> from the state \<open>s\<close> with the
  result \<open>R\<close>: the first \<open>n\<close> records were summarised, and either they are all of them,
  or the response for the next one stopped the loop.
\<close>

definition fetch_run ::
  "service \<Rightarrow> string \<Rightarrow> string \<Rightarrow> string \<Rightarrow> airtable_record list \<Rightarrow> fetch_state \<Rightarrow> nat
    \<Rightarrow> (fault + record_update list option) \<times> fetch_state \<Rightarrow> bool" where
  "fetch_run service tf key num rs s n R \<longleftrightarrow>
     n \<le> length rs
   \<and> (\<forall>j<n. summarised (response_at service tf key num (length (requests s) + j) (rs ! j)))
   \<and> recordUpdates (snd R) = recordUpdates s @
        map (\<lambda>j. summary_update (rs ! j) (response_at service tf key num (length (requests s) + j) (rs ! j))) [0..<n]
   \<and> requests (snd R) = requests s @
        map (\<lambda>r. request_url key num (getCellValueAsString r tf)) (take (Suc n) rs)
   \<and> invalidApi (snd R) =
        (if n < length rs \<and> carries_sentinel (response_at service tf key num (length (requests s) + n) (rs ! n))
         then True else if n = 0 then invalidApi s else False)
   \<and> fst R =
        (if n = length rs then Inr (Some (recordUpdates (snd R)))
         else if carries_sentinel (response_at service tf key num (length (requests s) + n) (rs ! n))
         then Inr None
         else Inl (fault_of (response_at service tf key num (length (requests s) + n) (rs ! n))))
   \<and> (n < length rs \<longrightarrow>
        \<not> summarised (response_at service tf key num (length (requests s) + n) (rs ! n)))"

subsection \<open>Batches\<close>

text \<open>
  The \<open>j\<close>-th slice of 50 counted from the index \<open>i\<close>, and the number of slices that
  remain from the index \<open>i\<close> in a list of length \<open>L\<close>.
\<close>

definition batch :: "'a list \<Rightarrow> nat \<Rightarrow> nat \<Rightarrow> 'a list" where
  "batch us i j = slice us (i + 50 * j) (i + 50 * j + 50)"

definition remaining :: "nat \<Rightarrow> nat \<Rightarrow> nat" where
  "remaining L i = (L - i + 49) div 50"

text \<open>
  The shape of a run of the writer's loop from the state \<open>w\<close> with the result \<open>R\<close>: it
  made \<open>n\<close> calls, with the slices in order; every call but the last resolved, and the
  last one decided the result.
\<close>

definition writer_run ::
  "host \<Rightarrow> record_update list \<Rightarrow> write_state \<Rightarrow> nat \<Rightarrow> (fault + unit) \<times> write_state \<Rightarrow> bool" where
  "writer_run host us w n R \<longleftrightarrow>
     n \<le> remaining (length us) (loop_i w)
   \<and> calls (snd R) = calls w @ map (batch us (loop_i w)) [0..<n]
   \<and> (\<forall>j<n. host (length (calls w) + j) (batch us (loop_i w) j) = (if Suc j = n then fst R else Inr ()))
   \<and> (n = 0 \<longrightarrow> fst R = Inr ())
   \<and> (fst R = Inr () \<longrightarrow> n = remaining (length us) (loop_i w) \<and> loop_i (snd R) = loop_i w + 50 * n)"

section \<open>Example inputs\<close>

text \<open>
  The two rows and the two answers of the specification's example, a row whose cell has
  characters that are reserved in a URL, a service that rejects
  the credential at the second request, bodies without any of the two members, and hosts
  that resolve every write or reject the second.
\<close>

definition row1 :: airtable_record where
  "row1 = \<lparr>record_id = ''r1'', getCellValueAsString = (\<lambda>field. ''a.com'')\<rparr>"

definition row2 :: airtable_record where
  "row2 = \<lparr>record_id = ''r2'', getCellValueAsString = (\<lambda>field. ''b.com'')\<rparr>"

definition row_query :: airtable_record where
  "row_query = \<lparr>record_id = ''r3'', getCellValueAsString = (\<lambda>field. ''a.com/x y?q=1&r=2'')\<rparr>"

definition two_summaries :: service where
  "two_summaries k u =
     (if k = 0 then Inr (JObj [(''sm_api_content'', JStr ''S1'')])
      else Inr (JObj [(''sm_api_content'', JStr ''S2'')]))"

definition rejects_second :: service where
  "rejects_second k u =
     (if k = 1 then Inr (JObj [(''sm_api_message'', JStr ''INVALID API KEY'')])
      else Inr (JObj [(''sm_api_content'', JStr ''S1'')]))"

definition empty_bodies :: service where
  "empty_bodies k u = Inr (JObj [])"

definition other_members :: service where
  "other_members k u = Inr (JObj [(''sm_api_character_count'', JStr ''5'')])"

definition resolving_host :: host where
  "resolving_host k updateBatch = Inr ()"

definition failing_second :: host where
  "failing_second k updateBatch = (if k = 1 then Inl WriteFault else Inr ())"

definition some_update :: record_update where
  "some_update = \<lparr>update_id = ''r1'', update_fields = [(SUMMARY_FIELD_NAME, Some (JStr ''S1''))]\<rparr>"

section \<open>The shape of every run\<close>

subsection \<open>The writer\<close>

declare while_batches.simps [simp del]

lemma remaining_step: "i < L \<Longrightarrow> remaining L i = Suc (remaining L (i + 50))"
  unfolding remaining_def
  by (cases "i + 50 \<le> L") (auto simp: div_eq_0_iff intro!: div_nat_eqI)

lemma remaining_stop: "\<not> i < L \<Longrightarrow> remaining L i = 0"
  by (simp add: remaining_def)

lemma batch_shift: "batch us (i + 50) j = batch us i (Suc j)"
  by (simp add: batch_def add.assoc add.left_commute)

lemma writer_run_stop: "\<not> loop_i w < length us \<Longrightarrow> writer_run host us w 0 (Inr (), w)"
  by (simp add: writer_run_def remaining_stop)

lemma writer_run_fail:
  "loop_i w < length us \<Longrightarrow> host (length (calls w)) (batch us (loop_i w) 0) = Inl f
    \<Longrightarrow> writer_run host us w (Suc 0) (Inl f, w\<lparr>calls := calls w @ [batch us (loop_i w) 0]\<rparr>)"
  by (simp add: writer_run_def remaining_step)

lemma writer_run_step:
  assumes lt: "loop_i w < length us"
    and h0: "host (length (calls w)) (batch us (loop_i w) 0) = Inr ()"
    and run: "writer_run host us (w\<lparr>calls := calls w @ [batch us (loop_i w) 0], loop_i := loop_i w + 50\<rparr>) n R"
  shows "writer_run host us w (Suc n) R"
proof -
  from run have n: "n \<le> remaining (length us) (loop_i w + 50)"
    and cs: "calls (snd R) = (calls w @ [batch us (loop_i w) 0]) @ map (batch us (loop_i w + 50)) [0..<n]"
    and hs: "\<And>j. j < n \<Longrightarrow> host (Suc (length (calls w)) + j) (batch us (loop_i w + 50) j)
               = (if Suc j = n then fst R else Inr ())"
    and z: "n = 0 \<Longrightarrow> fst R = Inr ()"
    and fin: "fst R = Inr () \<Longrightarrow> n = remaining (length us) (loop_i w + 50) \<and> loop_i (snd R) = loop_i w + 50 + 50 * n"
    by (simp_all add: writer_run_def)
  have "Suc n \<le> remaining (length us) (loop_i w)"
    using n by (simp add: remaining_step[OF lt])
  moreover have "calls (snd R) = calls w @ map (batch us (loop_i w)) [0..<Suc n]"
    unfolding cs map_upt_Suc by (simp add: batch_shift)
  moreover have "host (length (calls w) + j) (batch us (loop_i w) j) = (if Suc j = Suc n then fst R else Inr ())"
    if "j < Suc n" for j
  proof (cases j)
    case 0
    with h0 z show ?thesis by auto
  next
    case (Suc j')
    with that hs[of j'] show ?thesis by (simp add: batch_shift)
  qed
  moreover have "Suc n = remaining (length us) (loop_i w) \<and> loop_i (snd R) = loop_i w + 50 * Suc n"
    if "fst R = Inr ()"
    using fin[OF that] by (simp add: remaining_step[OF lt])
  ultimately show ?thesis
    unfolding writer_run_def by blast
qed

lemma while_batches_run: "\<exists>n. writer_run host us w n (while_batches host us w)"
proof (induction host us w rule: while_batches.induct)
  case (1 host us w)
  show ?case
  proof (cases "loop_i w < length us")
    case False
    then have "while_batches host us w = (Inr (), w)"
      by (subst while_batches.simps) simp
    with writer_run_stop[OF False] show ?thesis by auto
  next
    case True
    show ?thesis
    proof (cases "host (length (calls w)) (batch us (loop_i w) 0)")
      case (Inl f)
      with True have "while_batches host us w = (Inl f, w\<lparr>calls := calls w @ [batch us (loop_i w) 0]\<rparr>)"
        by (subst while_batches.simps) (simp add: Let_def batch_def MAX_RECORDS_PER_UPDATE_def)
      with writer_run_fail[of w us host f, OF True Inl] show ?thesis by auto
    next
      case (Inr u)
      let ?w2 = "w\<lparr>calls := calls w @ [batch us (loop_i w) 0], loop_i := loop_i w + 50\<rparr>"
      from True Inr have unf: "while_batches host us w = while_batches host us ?w2"
        by (subst while_batches.simps) (simp add: Let_def batch_def MAX_RECORDS_PER_UPDATE_def)
      from Inr have "host (length (calls w)) (slice us (loop_i w) (loop_i w + MAX_RECORDS_PER_UPDATE)) = Inr u"
        by (simp add: batch_def MAX_RECORDS_PER_UPDATE_def)
      from "1.IH"[OF True refl refl this]
      obtain n where "writer_run host us ?w2 n (while_batches host us ?w2)"
        by (auto simp: batch_def MAX_RECORDS_PER_UPDATE_def)
      with Inr have "writer_run host us w (Suc n) (while_batches host us ?w2)"
        by (intro writer_run_step[OF True]) simp_all
      with unf show ?thesis by auto
    qed
  qed
qed

subsection \<open>The fetch loop\<close>

lemma get_prop_Inl: "get_prop body key = Inl f \<longleftrightarrow> body = JNull \<and> f = TypeError"
  by (cases body) auto

lemma for_records_Cons:
  "for_records service titleField apiKey numOfSentences (r # rest) s =
    (let u = request_url apiKey numOfSentences (getCellValueAsString r titleField);
         resp = service (length (requests s)) u;
         s1 = s\<lparr>requests := requests s @ [u]\<rparr>
     in if summarised resp then
          for_records service titleField apiKey numOfSentences rest
            (s1\<lparr>invalidApi := False, recordUpdates := recordUpdates s @ [summary_update r resp]\<rparr>)
        else if carries_sentinel resp then (Inr None, s1\<lparr>invalidApi := True\<rparr>)
        else (Inl (fault_of resp), s1))"
  by (auto simp: Let_def request_url_def summarised_def carries_sentinel_def content_of_def
        fault_of_def summary_update_def get_prop_Inl split: sum.splits)

declare for_records.simps(2) [simp del]

lemma fetch_run_Nil: "fetch_run service tf key num [] s 0 (Inr (Some (recordUpdates s)), s)"
  by (simp add: fetch_run_def)

lemma fetch_run_halt:
  assumes "\<not> summarised (response_at service tf key num (length (requests s)) r)"
  shows "fetch_run service tf key num (r # rest) s 0
           (for_records service tf key num (r # rest) s)"
  using assms
  by (simp add: fetch_run_def for_records_Cons Let_def response_at_def)

lemma fetch_run_step:
  assumes ok: "summarised (response_at service tf key num (length (requests s)) r)"
    and run: "fetch_run service tf key num rest
               (s\<lparr>requests := requests s @ [request_url key num (getCellValueAsString r tf)],
                  invalidApi := False,
                  recordUpdates := recordUpdates s @
                    [summary_update r (response_at service tf key num (length (requests s)) r)]\<rparr>) n R"
  shows "fetch_run service tf key num (r # rest) s (Suc n) R"
proof -
  let ?resp = "\<lambda>k r. response_at service tf key num k r"
  let ?k = "length (requests s)"
  from run have n: "n \<le> length rest"
    and oks: "\<And>j. j < n \<Longrightarrow> summarised (?resp (Suc ?k + j) (rest ! j))"
    and ups: "recordUpdates (snd R) = (recordUpdates s @ [summary_update r (?resp ?k r)]) @
        map (\<lambda>j. summary_update (rest ! j) (?resp (Suc ?k + j) (rest ! j))) [0..<n]"
    and reqs: "requests (snd R) = (requests s @ [request_url key num (getCellValueAsString r tf)]) @
        map (\<lambda>r. request_url key num (getCellValueAsString r tf)) (take (Suc n) rest)"
    and flag: "invalidApi (snd R) =
        (if n < length rest \<and> carries_sentinel (?resp (Suc ?k + n) (rest ! n)) then True else False)"
    and res: "fst R =
        (if n = length rest then Inr (Some (recordUpdates (snd R)))
         else if carries_sentinel (?resp (Suc ?k + n) (rest ! n)) then Inr None
         else Inl (fault_of (?resp (Suc ?k + n) (rest ! n))))"
    and stop: "n < length rest \<Longrightarrow> \<not> summarised (?resp (Suc ?k + n) (rest ! n))"
    by (simp_all add: fetch_run_def)
  have "Suc n \<le> length (r # rest)" using n by simp
  moreover have "summarised (?resp (?k + j) ((r # rest) ! j))" if "j < Suc n" for j
    using that ok oks by (cases j) simp_all
  moreover have "recordUpdates (snd R) = recordUpdates s @
        map (\<lambda>j. summary_update ((r # rest) ! j) (?resp (?k + j) ((r # rest) ! j))) [0..<Suc n]"
    unfolding ups map_upt_Suc by simp
  moreover have "requests (snd R) = requests s @
        map (\<lambda>r. request_url key num (getCellValueAsString r tf)) (take (Suc (Suc n)) (r # rest))"
    unfolding reqs by simp
  moreover have "invalidApi (snd R) =
        (if Suc n < length (r # rest) \<and> carries_sentinel (?resp (?k + Suc n) ((r # rest) ! Suc n))
         then True else if Suc n = 0 then invalidApi s else False)"
    unfolding flag by simp
  moreover have "fst R =
        (if Suc n = length (r # rest) then Inr (Some (recordUpdates (snd R)))
         else if carries_sentinel (?resp (?k + Suc n) ((r # rest) ! Suc n)) then Inr None
         else Inl (fault_of (?resp (?k + Suc n) ((r # rest) ! Suc n))))"
    unfolding res by simp
  moreover have "\<not> summarised (?resp (?k + Suc n) ((r # rest) ! Suc n))" if "Suc n < length (r # rest)"
    using that stop by simp
  ultimately show ?thesis
    unfolding fetch_run_def by blast
qed

lemma for_records_run:
  "\<exists>n. fetch_run service tf key num rs s n (for_records service tf key num rs s)"
proof (induction rs arbitrary: s)
  case Nil
  show ?case using fetch_run_Nil[of service tf key num s] by auto
next
  case (Cons r rest)
  show ?case
  proof (cases "summarised (response_at service tf key num (length (requests s)) r)")
    case False
    from fetch_run_halt[OF this] show ?thesis by blast
  next
    case True
    let ?s2 = "s\<lparr>requests := requests s @ [request_url key num (getCellValueAsString r tf)],
                  invalidApi := False,
                  recordUpdates := recordUpdates s @
                    [summary_update r (response_at service tf key num (length (requests s)) r)]\<rparr>"
    from True have unf: "for_records service tf key num (r # rest) s = for_records service tf key num rest ?s2"
      by (simp add: for_records_Cons Let_def response_at_def)
    from Cons.IH[of ?s2] obtain n where
      "fetch_run service tf key num rest ?s2 n (for_records service tf key num rest ?s2)" by blast
    from fetch_run_step[OF True this] unf show ?thesis by auto
  qed
qed

subsection \<open>The writer from its first state\<close>

lemma ceiling_50: "\<lceil>real L / 50\<rceil> = int ((L + 49) div 50)"
  by linarith

lemma length_slice: "length (slice us a b) = min b (length us) - a"
  by (simp add: slice_def)

lemma set_slice: "set (slice us a b) \<subseteq> set us"
  unfolding slice_def by (meson set_drop_subset set_take_subset subset_trans)

lemma concat_slices: "concat (map (\<lambda>k. slice us (50 * k) (50 * k + 50)) [0..<n]) = take (50 * n) us"
proof (induction n)
  case 0
  show ?case by simp
next
  case (Suc n)
  have "slice us (50 * n) (50 * n + 50) = take 50 (drop (50 * n) us)"
    by (simp add: slice_def drop_take)
  then have "take (50 * n) us @ slice us (50 * n) (50 * n + 50) = take (50 * n + 50) us"
    by (simp add: take_add)
  with Suc show ?case by (simp add: add.commute)
qed

lemma writer_shape:
  obtains n where "n \<le> (length us + 49) div 50"
    and "calls (snd (updateRecordsInBatchesAsync host (Some us))) =
           map (\<lambda>k. slice us (50 * k) (50 * k + 50)) [0..<n]"
    and "\<And>j. j < n \<Longrightarrow> host j (slice us (50 * j) (50 * j + 50)) =
           (if Suc j = n then fst (updateRecordsInBatchesAsync host (Some us)) else Inr ())"
    and "n = 0 \<Longrightarrow> fst (updateRecordsInBatchesAsync host (Some us)) = Inr ()"
    and "fst (updateRecordsInBatchesAsync host (Some us)) = Inr () \<Longrightarrow>
           n = (length us + 49) div 50 \<and> loop_i (snd (updateRecordsInBatchesAsync host (Some us))) = 50 * n"
proof -
  obtain n where "writer_run host us \<lparr>loop_i = 0, calls = []\<rparr> n (while_batches host us \<lparr>loop_i = 0, calls = []\<rparr>)"
    using while_batches_run by blast
  then have "n \<le> (length us + 49) div 50"
    and "calls (snd (updateRecordsInBatchesAsync host (Some us))) =
           map (\<lambda>k. slice us (50 * k) (50 * k + 50)) [0..<n]"
    and "\<And>j. j < n \<Longrightarrow> host j (slice us (50 * j) (50 * j + 50)) =
           (if Suc j = n then fst (updateRecordsInBatchesAsync host (Some us)) else Inr ())"
    and "n = 0 \<Longrightarrow> fst (updateRecordsInBatchesAsync host (Some us)) = Inr ()"
    and "fst (updateRecordsInBatchesAsync host (Some us)) = Inr () \<Longrightarrow>
           n = (length us + 49) div 50 \<and> loop_i (snd (updateRecordsInBatchesAsync host (Some us))) = 50 * n"
    by (simp_all add: writer_run_def updateRecordsInBatchesAsync_def remaining_def batch_def)
  then show thesis by (rule that)
qed

lemma writer_resolved:
  assumes res: "\<And>k. k < (length us + 49) div 50 \<Longrightarrow> host k (slice us (50 * k) (50 * k + 50)) = Inr ()"
  shows "fst (updateRecordsInBatchesAsync host (Some us)) = Inr ()"
    and "calls (snd (updateRecordsInBatchesAsync host (Some us))) =
           map (\<lambda>k. slice us (50 * k) (50 * k + 50)) [0..<(length us + 49) div 50]"
    and "loop_i (snd (updateRecordsInBatchesAsync host (Some us))) = 50 * ((length us + 49) div 50)"
proof -
  let ?R = "updateRecordsInBatchesAsync host (Some us)"
  obtain n where n: "n \<le> (length us + 49) div 50"
    and cs: "calls (snd ?R) = map (\<lambda>k. slice us (50 * k) (50 * k + 50)) [0..<n]"
    and hs: "\<And>j. j < n \<Longrightarrow> host j (slice us (50 * j) (50 * j + 50)) = (if Suc j = n then fst ?R else Inr ())"
    and z: "n = 0 \<Longrightarrow> fst ?R = Inr ()"
    and fin: "fst ?R = Inr () \<Longrightarrow> n = (length us + 49) div 50 \<and> loop_i (snd ?R) = 50 * n"
    by (rule writer_shape[where us=us and host=host], rule that)
  show ok: "fst ?R = Inr ()"
  proof (cases n)
    case 0
    with z show ?thesis by simp
  next
    case (Suc m)
    with hs[of m] have "host m (slice us (50 * m) (50 * m + 50)) = fst ?R" by simp
    moreover from Suc n have "m < (length us + 49) div 50" by simp
    ultimately show ?thesis using res by simp
  qed
  from fin[OF ok] cs
  show "calls (snd ?R) = map (\<lambda>k. slice us (50 * k) (50 * k + 50)) [0..<(length us + 49) div 50]"
    and "loop_i (snd ?R) = 50 * ((length us + 49) div 50)"
    by simp_all
qed

subsection \<open>The fetch loop from its first state\<close>

lemma sentinel_not_summarised: "carries_sentinel resp \<Longrightarrow> \<not> summarised resp"
  by (auto simp: carries_sentinel_def summarised_def split: sum.splits)

lemma summarised_read: "summarised resp \<Longrightarrow> message_read resp"
  by (auto simp: message_read_def summarised_def split: sum.splits)

lemma sentinel_read: "carries_sentinel resp \<Longrightarrow> message_read resp"
  by (auto simp: message_read_def carries_sentinel_def split: sum.splits)

lemma read_cases: "message_read resp \<Longrightarrow> summarised resp \<or> carries_sentinel resp"
  by (auto simp: message_read_def carries_sentinel_def summarised_def split: sum.splits)

lemma getSummaries_shape:
  obtains n where "n \<le> length rows"
    and "\<And>j. j < n \<Longrightarrow> summarised (response_at service tf key num j (rows ! j))"
    and "recordUpdates (snd (getSummariesAsync service tf rows key num flag)) =
           map (\<lambda>j. summary_update (rows ! j) (response_at service tf key num j (rows ! j))) [0..<n]"
    and "requests (snd (getSummariesAsync service tf rows key num flag)) =
           map (\<lambda>r. request_url key num (getCellValueAsString r tf)) (take (Suc n) rows)"
    and "invalidApi (snd (getSummariesAsync service tf rows key num flag)) =
           (if n < length rows \<and> carries_sentinel (response_at service tf key num n (rows ! n))
            then True else if n = 0 then flag else False)"
    and "fst (getSummariesAsync service tf rows key num flag) =
           (if n = length rows
            then Inr (Some (recordUpdates (snd (getSummariesAsync service tf rows key num flag))))
            else if carries_sentinel (response_at service tf key num n (rows ! n)) then Inr None
            else Inl (fault_of (response_at service tf key num n (rows ! n))))"
    and "n < length rows \<Longrightarrow> \<not> summarised (response_at service tf key num n (rows ! n))"
proof -
  let ?s0 = "\<lparr>invalidApi = flag, requests = [], recordUpdates = []\<rparr>"
  obtain n where "fetch_run service tf key num rows ?s0 n (for_records service tf key num rows ?s0)"
    using for_records_run by blast
  then have "n \<le> length rows"
    and "\<And>j. j < n \<Longrightarrow> summarised (response_at service tf key num j (rows ! j))"
    and "recordUpdates (snd (getSummariesAsync service tf rows key num flag)) =
           map (\<lambda>j. summary_update (rows ! j) (response_at service tf key num j (rows ! j))) [0..<n]"
    and "requests (snd (getSummariesAsync service tf rows key num flag)) =
           map (\<lambda>r. request_url key num (getCellValueAsString r tf)) (take (Suc n) rows)"
    and "invalidApi (snd (getSummariesAsync service tf rows key num flag)) =
           (if n < length rows \<and> carries_sentinel (response_at service tf key num n (rows ! n))
            then True else if n = 0 then flag else False)"
    and "fst (getSummariesAsync service tf rows key num flag) =
           (if n = length rows
            then Inr (Some (recordUpdates (snd (getSummariesAsync service tf rows key num flag))))
            else if carries_sentinel (response_at service tf key num n (rows ! n)) then Inr None
            else Inl (fault_of (response_at service tf key num n (rows ! n))))"
    and "n < length rows \<Longrightarrow> \<not> summarised (response_at service tf key num n (rows ! n))"
    by (simp_all add: fetch_run_def getSummariesAsync_def)
  then show thesis by (rule that)
qed

lemma getSummaries_all:
  assumes "\<And>j. j < length rows \<Longrightarrow> summarised (response_at service tf key num j (rows ! j))"
  shows "fst (getSummariesAsync service tf rows key num flag) =
           Inr (Some (map (\<lambda>j. summary_update (rows ! j) (response_at service tf key num j (rows ! j)))
                  [0..<length rows]))"
    and "requests (snd (getSummariesAsync service tf rows key num flag)) =
           map (\<lambda>r. request_url key num (getCellValueAsString r tf)) rows"
proof -
  let ?R = "getSummariesAsync service tf rows key num flag"
  obtain n where n: "n \<le> length rows"
    and ups: "recordUpdates (snd ?R) =
           map (\<lambda>j. summary_update (rows ! j) (response_at service tf key num j (rows ! j))) [0..<n]"
    and reqs: "requests (snd ?R) = map (\<lambda>r. request_url key num (getCellValueAsString r tf)) (take (Suc n) rows)"
    and res: "fst ?R =
           (if n = length rows then Inr (Some (recordUpdates (snd ?R)))
            else if carries_sentinel (response_at service tf key num n (rows ! n)) then Inr None
            else Inl (fault_of (response_at service tf key num n (rows ! n))))"
    and stop: "n < length rows \<Longrightarrow> \<not> summarised (response_at service tf key num n (rows ! n))"
    by (rule getSummaries_shape[where rows=rows and service=service and tf=tf and key=key and num=num and flag=flag], rule that)
  from stop assms n have "n = length rows"
    by (cases "n < length rows") auto
  with ups reqs res show "fst ?R =
           Inr (Some (map (\<lambda>j. summary_update (rows ! j) (response_at service tf key num j (rows ! j)))
                  [0..<length rows]))"
    and "requests (snd ?R) = map (\<lambda>r. request_url key num (getCellValueAsString r tf)) rows"
    by simp_all
qed

lemma getSummaries_stopped:
  assumes k: "k < length rows"
    and bad: "\<not> summarised (response_at service tf key num k (rows ! k))"
    and before: "\<And>j. j < k \<Longrightarrow> summarised (response_at service tf key num j (rows ! j))"
  shows "fst (getSummariesAsync service tf rows key num flag) =
           (if carries_sentinel (response_at service tf key num k (rows ! k)) then Inr None
            else Inl (fault_of (response_at service tf key num k (rows ! k))))"
    and "requests (snd (getSummariesAsync service tf rows key num flag)) =
           map (\<lambda>r. request_url key num (getCellValueAsString r tf)) (take (Suc k) rows)"
    and "recordUpdates (snd (getSummariesAsync service tf rows key num flag)) =
           map (\<lambda>j. summary_update (rows ! j) (response_at service tf key num j (rows ! j))) [0..<k]"
    and "invalidApi (snd (getSummariesAsync service tf rows key num flag)) =
           (if carries_sentinel (response_at service tf key num k (rows ! k)) then True
            else if k = 0 then flag else False)"
proof -
  let ?R = "getSummariesAsync service tf rows key num flag"
  obtain n where n: "n \<le> length rows"
    and oks: "\<And>j. j < n \<Longrightarrow> summarised (response_at service tf key num j (rows ! j))"
    and ups: "recordUpdates (snd ?R) =
           map (\<lambda>j. summary_update (rows ! j) (response_at service tf key num j (rows ! j))) [0..<n]"
    and reqs: "requests (snd ?R) = map (\<lambda>r. request_url key num (getCellValueAsString r tf)) (take (Suc n) rows)"
    and flg: "invalidApi (snd ?R) =
           (if n < length rows \<and> carries_sentinel (response_at service tf key num n (rows ! n))
            then True else if n = 0 then flag else False)"
    and res: "fst ?R =
           (if n = length rows then Inr (Some (recordUpdates (snd ?R)))
            else if carries_sentinel (response_at service tf key num n (rows ! n)) then Inr None
            else Inl (fault_of (response_at service tf key num n (rows ! n))))"
    and stop: "n < length rows \<Longrightarrow> \<not> summarised (response_at service tf key num n (rows ! n))"
    by (rule getSummaries_shape[where rows=rows and service=service and tf=tf and key=key and num=num and flag=flag], rule that)
  have "\<not> k < n" using oks bad by blast
  moreover have "\<not> n < k" using before stop k by auto
  ultimately have "n = k" by simp
  with k ups reqs flg res show "fst ?R =
           (if carries_sentinel (response_at service tf key num k (rows ! k)) then Inr None
            else Inl (fault_of (response_at service tf key num k (rows ! k))))"
    and "requests (snd ?R) = map (\<lambda>r. request_url key num (getCellValueAsString r tf)) (take (Suc k) rows)"
    and "recordUpdates (snd ?R) =
           map (\<lambda>j. summary_update (rows ! j) (response_at service tf key num j (rows ! j))) [0..<k]"
    and "invalidApi (snd ?R) =
           (if carries_sentinel (response_at service tf key num k (rows ! k)) then True
            else if k = 0 then flag else False)"
    by simp_all
qed

lemma no_list_no_write:
  assumes "\<And>us. fst (getSummariesAsync service tf rows key num flag) \<noteq> Inr (Some us)"
  shows "write_calls (onButtonClick service host tf rows key num flag) = []"
proof (cases "getSummariesAsync service tf rows key num flag")
  case (Pair res s)
  with assms show ?thesis
    by (cases res; cases "projr res")
       (auto simp: onButtonClick_def updateRecordsInBatchesAsync_def)
qed

subsection \<open>The click\<close>

lemma run_fetch_calls:
  "fetch_calls (onButtonClick service host tf rows key num flag) =
     requests (snd (getSummariesAsync service tf rows key num flag))"
  by (auto simp: onButtonClick_def split: prod.splits sum.splits)

lemma run_write_calls:
  "fst (getSummariesAsync service tf rows key num flag) = Inr (Some us) \<Longrightarrow>
     write_calls (onButtonClick service host tf rows key num flag) =
       calls (snd (updateRecordsInBatchesAsync host (Some us)))"
  by (auto simp: onButtonClick_def split: prod.splits sum.splits)

lemma writer_one_call:
  assumes "1 \<le> length us" and "length us \<le> 50"
  shows "calls (snd (updateRecordsInBatchesAsync host (Some us))) = [us]"
proof -
  let ?R = "updateRecordsInBatchesAsync host (Some us)"
  obtain n where n: "n \<le> (length us + 49) div 50"
    and cs: "calls (snd ?R) = map (\<lambda>k. slice us (50 * k) (50 * k + 50)) [0..<n]"
    and z: "n = 0 \<Longrightarrow> fst ?R = Inr ()"
    and fin: "fst ?R = Inr () \<Longrightarrow> n = (length us + 49) div 50 \<and> loop_i (snd ?R) = 50 * n"
    by (rule writer_shape[where us=us and host=host], rule that)
  from assms have N: "(length us + 49) div 50 = 1" by simp
  have "n \<noteq> 0"
  proof
    assume "n = 0"
    with z fin N show False by simp
  qed
  with n N have "n = 1" by simp
  with assms show ?thesis by (simp add: cs slice_def)
qed

text \<open>A host that rejects the second call gets two calls, and the third slice is never sent.\<close>

lemma failing_second_120:
  "map length (calls (snd (updateRecordsInBatchesAsync failing_second (Some (replicate 120 some_update)))))
     = [50, 50]
   \<and> fst (updateRecordsInBatchesAsync failing_second (Some (replicate 120 some_update))) = Inl WriteFault"
proof -
  let ?us = "replicate 120 some_update"
  let ?R = "updateRecordsInBatchesAsync failing_second (Some ?us)"
  obtain n where n: "n \<le> (length ?us + 49) div 50"
    and cs: "calls (snd ?R) = map (\<lambda>k. slice ?us (50 * k) (50 * k + 50)) [0..<n]"
    and hs: "\<And>j. j < n \<Longrightarrow> failing_second j (slice ?us (50 * j) (50 * j + 50)) =
           (if Suc j = n then fst ?R else Inr ())"
    and z: "n = 0 \<Longrightarrow> fst ?R = Inr ()"
    and fin: "fst ?R = Inr () \<Longrightarrow> n = (length ?us + 49) div 50 \<and> loop_i (snd ?R) = 50 * n"
    by (rule writer_shape[where us="?us" and host=failing_second], rule that)
  have u2: "[0..<2::nat] = [0, 1]" by (simp add: upt_rec)
  from n have "n = 0 \<or> n = 1 \<or> n = 2 \<or> n = 3" by auto
  then have "n = 2"
  proof (elim disjE)
    assume "n = 0"
    with z fin show ?thesis by simp
  next
    assume "n = 1"
    with hs[of 0] fin show ?thesis by (simp add: failing_second_def)
  next
    assume "n = 2"
    then show ?thesis .
  next
    assume "n = 3"
    with hs[of 1] show ?thesis by (simp add: failing_second_def)
  qed
  with hs[of 1] cs show ?thesis
    by (simp add: u2 length_slice failing_second_def)
qed

subsection \<open>Responses that were read\<close>

lemma filter_read_prefix:
  assumes "\<And>j. j < m \<Longrightarrow> summarised (f j)"
  shows "filter message_read (map f [0..<m]) = map f [0..<m]"
  using assms by (intro filter_True) (auto intro: summarised_read)

lemma last_map_upt: "0 < m \<Longrightarrow> last (map f [0..<m]) = f (m - 1)"
  by (simp add: last_map)

lemma summary_update_key: "map fst (update_fields (summary_update r resp)) = [SUMMARY_FIELD_NAME]"
  by (simp add: summary_update_def)

lemma summary_update_id: "update_id (summary_update r resp) = record_id r"
  by (simp add: summary_update_def)

lemma view_determines:
  assumes "view a = view b"
  shows "summarised a = summarised b" and "carries_sentinel a = carries_sentinel b"
    and "content_of a = content_of b" and "fault_of a = fault_of b"
  using assms
  by (auto simp: view_def summarised_def carries_sentinel_def content_of_def fault_of_def
        split: sum.splits)

lemma for_records_view:
  assumes same: "\<And>j u. view (service j u) = view (service' j u)"
  shows "for_records service tf key num rs s = for_records service' tf key num rs s"
proof (induction rs arbitrary: s)
  case Nil
  show ?case by simp
next
  case (Cons r rest)
  let ?u = "request_url key num (getCellValueAsString r tf)"
  note d = view_determines[OF same[of "length (requests s)" ?u]]
  show ?case
    unfolding for_records_Cons Let_def summary_update_def d
    by (simp add: Cons.IH)
qed

section \<open>The properties\<close>

text \<open>
  C5: given no rows, the fetch loop returns the empty update list, makes no request and
  leaves the flag as it was; given the empty list or \<^verbatim>\<open>undefined\<close>, the writer makes no
  write call and returns at once; and a click on an empty table makes no call at all.
\<close>

theorem nothing_to_do:
  "getSummariesAsync service titleField [] apiKey numOfSentences flag
     = (Inr (Some []), \<lparr>invalidApi = flag, requests = [], recordUpdates = []\<rparr>)
   \<and> updateRecordsInBatchesAsync host (Some []) = (Inr (), \<lparr>loop_i = 0, calls = []\<rparr>)
   \<and> updateRecordsInBatchesAsync host None = (Inr (), \<lparr>loop_i = 0, calls = []\<rparr>)
   \<and> onButtonClick service host titleField [] apiKey numOfSentences flag
     = \<lparr>outcome = Inr (), isUpdateInProgress = False, invalidApi_after = flag,
        fetch_calls = [], write_calls = []\<rparr>"
proof -
  have w: "while_batches host [] \<lparr>loop_i = 0, calls = []\<rparr> = (Inr (), \<lparr>loop_i = 0, calls = []\<rparr>)"
    by (subst while_batches.simps) simp
  have g: "getSummariesAsync service titleField [] apiKey numOfSentences flag
     = (Inr (Some []), \<lparr>invalidApi = flag, requests = [], recordUpdates = []\<rparr>)"
    by (simp add: getSummariesAsync_def)
  have u: "updateRecordsInBatchesAsync host (Some []) = (Inr (), \<lparr>loop_i = 0, calls = []\<rparr>)"
    by (simp add: updateRecordsInBatchesAsync_def w)
  have n: "updateRecordsInBatchesAsync host None = (Inr (), \<lparr>loop_i = 0, calls = []\<rparr>)"
    by (simp add: updateRecordsInBatchesAsync_def)
  show ?thesis
    by (simp add: g u n onButtonClick_def)
qed

text \<open>
  C1: when the response for the row at position \<open>n\<close> (counted from 0) carries the sentinel
  \<^verbatim>\<open>INVALID API KEY\<close>, the fetch loop returns no update list, requests no row after
  that one, and the click makes no write call, whatever the host does. When the rows
  before it were summarised, the loop returns \<^verbatim>\<open>undefined\<close> with the flag set, after
  exactly \<open>n + 1\<close> requests, and the \<open>n\<close> updates it had accumulated are dropped.
\<close>

theorem invalid_key_discards:
  assumes n: "n < length rows"
    and bad: "carries_sentinel (response_at service titleField apiKey numOfSentences n (rows ! n))"
  shows "(let R = getSummariesAsync service titleField rows apiKey numOfSentences flag
          in (\<forall>us. fst R \<noteq> Inr (Some us))
           \<and> length (requests (snd R)) \<le> Suc n
           \<and> write_calls (onButtonClick service host titleField rows apiKey numOfSentences flag) = []
           \<and> ((\<forall>j<n. summarised (response_at service titleField apiKey numOfSentences j (rows ! j))) \<longrightarrow>
                 fst R = Inr None
               \<and> invalidApi (snd R)
               \<and> length (recordUpdates (snd R)) = n
               \<and> length (requests (snd R)) = Suc n))"
proof -
  let ?R = "getSummariesAsync service titleField rows apiKey numOfSentences flag"
  let ?resp = "\<lambda>j. response_at service titleField apiKey numOfSentences j (rows ! j)"
  obtain m where m: "m \<le> length rows"
    and oks: "\<And>j. j < m \<Longrightarrow> summarised (?resp j)"
    and reqs: "requests (snd ?R) =
           map (\<lambda>r. request_url apiKey numOfSentences (getCellValueAsString r titleField)) (take (Suc m) rows)"
    and res: "fst ?R =
           (if m = length rows then Inr (Some (recordUpdates (snd ?R)))
            else if carries_sentinel (?resp m) then Inr None
            else Inl (fault_of (?resp m)))"
    by (rule getSummaries_shape[where rows=rows and service=service and tf=titleField
          and key=apiKey and num=numOfSentences and flag=flag], rule that)
  have "\<not> n < m" using oks[of n] sentinel_not_summarised[OF bad] by blast
  then have mn: "m \<le> n" by simp
  with n have "m \<noteq> length rows" by simp
  with res have p1: "\<forall>us. fst ?R \<noteq> Inr (Some us)" by auto
  have p2: "length (requests (snd ?R)) \<le> Suc n"
    using mn by (simp add: reqs)
  from p1 have p3: "write_calls (onButtonClick service host titleField rows apiKey numOfSentences flag) = []"
    by (intro no_list_no_write) simp
  have p4: "fst ?R = Inr None \<and> invalidApi (snd ?R)
           \<and> length (recordUpdates (snd ?R)) = n \<and> length (requests (snd ?R)) = Suc n"
    if "\<forall>j<n. summarised (?resp j)"
  proof -
    from that have b: "\<And>j. j < n \<Longrightarrow> summarised (?resp j)" by blast
    note st = getSummaries_stopped[where flag = flag, OF n sentinel_not_summarised[OF bad] b]
    from st(1) bad have "fst ?R = Inr None" by simp
    moreover from st(4) bad have "invalidApi (snd ?R)" by simp
    moreover from st(3) have "length (recordUpdates (snd ?R)) = n" by simp
    moreover from st(2) n have "length (requests (snd ?R)) = Suc n" by simp
    ultimately show ?thesis by blast
  qed
  from p1 p2 p3 p4 show ?thesis
    unfolding Let_def by blast
qed

theorem invalid_key_discards_witness:
  "(1::nat) < length [row1, row2]
   \<and> carries_sentinel (response_at rejects_second URL_FIELD_NAME ''KEY'' [] 1 ([row1, row2] ! 1))
   \<and> summarised (response_at rejects_second URL_FIELD_NAME ''KEY'' [] 0 ([row1, row2] ! 0))
   \<and> fst (getSummariesAsync rejects_second URL_FIELD_NAME [row1, row2] ''KEY'' [] False) = Inr None
   \<and> invalidApi (snd (getSummariesAsync rejects_second URL_FIELD_NAME [row1, row2] ''KEY'' [] False))
   \<and> length (recordUpdates (snd (getSummariesAsync rejects_second URL_FIELD_NAME [row1, row2] ''KEY'' [] False))) = 1
   \<and> write_calls (onButtonClick rejects_second resolving_host URL_FIELD_NAME [row1, row2] ''KEY'' [] False) = []"
proof -
  have c: "carries_sentinel (response_at rejects_second URL_FIELD_NAME ''KEY'' [] 1 ([row1, row2] ! 1))"
    by (simp add: carries_sentinel_def response_at_def rejects_second_def)
  have s: "summarised (response_at rejects_second URL_FIELD_NAME ''KEY'' [] 0 ([row1, row2] ! 0))"
    by (simp add: summarised_def response_at_def rejects_second_def)
  have l: "(1::nat) < length [row1, row2]" by simp
  from invalid_key_discards[OF l c, of False resolving_host] s c show ?thesis
    by (simp add: Let_def)
qed

text \<open>
  C2: for an update list of length \<open>L\<close> the calls of the writer are, in call order, the
  slices \<open>[50k, 50k + 50)\<close> of the list, at most \<open>\<lceil>L / 50\<rceil>\<close> of them, each of at most
  50 updates; a call is followed by another one only when it resolved. When every call
  resolves there are exactly \<open>\<lceil>L / 50\<rceil>\<close> calls, their concatenation is the list, and
  for 120 updates their sizes are 50, 50, 20.
\<close>

theorem writer_batches:
  "(let R = updateRecordsInBatchesAsync host (Some us);
        cs = calls (snd R);
        N = (length us + 49) div 50
    in int N = \<lceil>real (length us) / 50\<rceil>
     \<and> (\<exists>n\<le>N. cs = map (\<lambda>k. slice us (50 * k) (50 * k + 50)) [0..<n])
     \<and> (\<forall>b\<in>set cs. length b \<le> 50)
     \<and> (\<forall>k. Suc k < length cs \<longrightarrow> host k (cs ! k) = Inr ())
     \<and> ((\<forall>k<N. host k (slice us (50 * k) (50 * k + 50)) = Inr ()) \<longrightarrow>
          fst R = Inr () \<and> length cs = N \<and> concat cs = us
          \<and> (length us = 120 \<longrightarrow> map length cs = [50, 50, 20])))"
proof -
  let ?R = "updateRecordsInBatchesAsync host (Some us)"
  let ?cs = "calls (snd ?R)"
  let ?N = "(length us + 49) div 50"
  obtain n where n: "n \<le> ?N"
    and cs: "?cs = map (\<lambda>k. slice us (50 * k) (50 * k + 50)) [0..<n]"
    and hs: "\<And>j. j < n \<Longrightarrow> host j (slice us (50 * j) (50 * j + 50)) = (if Suc j = n then fst ?R else Inr ())"
    by (rule writer_shape[where us=us and host=host], rule that)
  have p1: "int ?N = \<lceil>real (length us) / 50\<rceil>"
    by (simp add: ceiling_50)
  have p2: "\<exists>n\<le>?N. ?cs = map (\<lambda>k. slice us (50 * k) (50 * k + 50)) [0..<n]"
    using n cs by blast
  have p3: "\<forall>b\<in>set ?cs. length b \<le> 50"
    unfolding cs by (auto simp: length_slice)
  have p4: "\<forall>k. Suc k < length ?cs \<longrightarrow> host k (?cs ! k) = Inr ()"
  proof (intro allI impI)
    fix k assume "Suc k < length ?cs"
    then have "Suc k < n" by (simp add: cs)
    with hs[of k] show "host k (?cs ! k) = Inr ()" by (simp add: cs)
  qed
  have p5: "fst ?R = Inr () \<and> length ?cs = ?N \<and> concat ?cs = us
          \<and> (length us = 120 \<longrightarrow> map length ?cs = [50, 50, 20])"
    if res: "\<forall>k<?N. host k (slice us (50 * k) (50 * k + 50)) = Inr ()"
  proof -
    from res have r: "\<And>k. k < ?N \<Longrightarrow> host k (slice us (50 * k) (50 * k + 50)) = Inr ()" by blast
    note writer_resolved[of us host, OF r]
    then have ok: "fst ?R = Inr ()"
      and all: "?cs = map (\<lambda>k. slice us (50 * k) (50 * k + 50)) [0..<?N]" by blast+
    have len: "length ?cs = ?N" by (simp add: all)
    have "length us \<le> 50 * ?N" by linarith
    then have cat: "concat ?cs = us"
      unfolding all concat_slices by simp
    have "map length ?cs = [50, 50, 20]" if "length us = 120"
    proof -
      have u3: "[0..<3::nat] = [0, 1, 2]" by (simp add: upt_rec)
      from that have "?N = 3" by simp
      then show ?thesis
        unfolding all by (simp add: u3 length_slice that)
    qed
    with ok len cat show ?thesis by blast
  qed
  from p1 p2 p3 p4 p5 show ?thesis
    unfolding Let_def by blast
qed


theorem writer_batches_witness:
  "resolving_host 0 (slice (replicate 120 some_update) 0 50) = Inr ()
   \<and> fst (updateRecordsInBatchesAsync resolving_host (Some (replicate 120 some_update))) = Inr ()
   \<and> map length (calls (snd (updateRecordsInBatchesAsync resolving_host (Some (replicate 120 some_update)))))
       = [50, 50, 20]
   \<and> concat (calls (snd (updateRecordsInBatchesAsync resolving_host (Some (replicate 120 some_update)))))
       = replicate 120 some_update
   \<and> failing_second 1 (slice (replicate 120 some_update) 50 100) = Inl WriteFault
   \<and> map length (calls (snd (updateRecordsInBatchesAsync failing_second (Some (replicate 120 some_update)))))
       = [50, 50]"
  using writer_batches[where host = resolving_host and us = "replicate 120 some_update"]
    failing_second_120
  by (simp add: Let_def resolving_host_def failing_second_def)

text \<open>
  C3: when the response for every row is summarised (a body arrived, its message was read
  and is not the sentinel), the fetch loop returns one update per row, in the order of the
  rows, each with the row's id and the single member \<^verbatim>\<open>Summary\<close> holding that
  response's \<^verbatim>\<open>sm_api_content\<close>. The witness is the example of the specification.
\<close>

theorem all_summarised:
  assumes "\<forall>j<length rows. summarised (response_at service titleField apiKey numOfSentences j (rows ! j))"
  shows "fst (getSummariesAsync service titleField rows apiKey numOfSentences flag) =
           Inr (Some (map (\<lambda>j. \<lparr>update_id = record_id (rows ! j),
                                 update_fields = [(''Summary'',
                                   content_of (response_at service titleField apiKey numOfSentences j (rows ! j)))]\<rparr>)
                        [0..<length rows]))"
proof -
  from assms have "\<And>j. j < length rows \<Longrightarrow>
      summarised (response_at service titleField apiKey numOfSentences j (rows ! j))" by blast
  from getSummaries_all(1)[OF this] show ?thesis
    by (simp add: summary_update_def SUMMARY_FIELD_NAME_def)
qed

theorem all_summarised_witness:
  "summarised (response_at two_summaries URL_FIELD_NAME ''KEY'' [] 0 row1)
   \<and> summarised (response_at two_summaries URL_FIELD_NAME ''KEY'' [] 1 row2)
   \<and> fst (getSummariesAsync two_summaries URL_FIELD_NAME [row1, row2] ''KEY'' [] False) =
       Inr (Some [\<lparr>update_id = ''r1'', update_fields = [(''Summary'', Some (JStr ''S1''))]\<rparr>,
                  \<lparr>update_id = ''r2'', update_fields = [(''Summary'', Some (JStr ''S2''))]\<rparr>])"
proof -
  have u2: "[0..<2::nat] = [0, 1]" by (simp add: upt_rec)
  have s0: "summarised (response_at two_summaries URL_FIELD_NAME ''KEY'' [] 0 row1)"
    by (simp add: summarised_def response_at_def two_summaries_def)
  have s1: "summarised (response_at two_summaries URL_FIELD_NAME ''KEY'' [] 1 row2)"
    by (simp add: summarised_def response_at_def two_summaries_def)
  have "\<forall>j<length [row1, row2].
          summarised (response_at two_summaries URL_FIELD_NAME ''KEY'' [] j ([row1, row2] ! j))"
    using s0 s1 by (simp add: less_Suc_eq)
  from all_summarised[OF this, of False] s0 s1 show ?thesis
    by (simp add: u2 content_of_def response_at_def two_summaries_def row1_def row2_def)
qed

text \<open>
  C4 as stated fails for the empty sequence: no rows are at most 50 rows, and the click
  makes no write call.
\<close>

theorem no_rows_no_call:
  "length ([] :: airtable_record list) \<le> 50
   \<and> length (write_calls (onButtonClick two_summaries resolving_host URL_FIELD_NAME [] ''KEY'' [] False)) = 0"
proof -
  have "while_batches resolving_host [] \<lparr>loop_i = 0, calls = []\<rparr> = (Inr (), \<lparr>loop_i = 0, calls = []\<rparr>)"
    by (subst while_batches.simps) simp
  then show ?thesis
    by (simp add: onButtonClick_def getSummariesAsync_def updateRecordsInBatchesAsync_def)
qed

text \<open>
  C4, as the code has it: a list of between 1 and 50 updates is written in exactly one
  call, which holds the whole list in order, whether or not that call resolves; the empty
  list is written in no call. So a click on between 1 and 50 rows that are all summarised
  makes exactly one write call, with the updates of all the rows in row order.
\<close>

theorem single_batch:
  "(1 \<le> length us \<and> length us \<le> 50 \<longrightarrow>
      calls (snd (updateRecordsInBatchesAsync host (Some us))) = [us])
   \<and> calls (snd (updateRecordsInBatchesAsync host (Some []))) = []
   \<and> (1 \<le> length rows \<and> length rows \<le> 50
       \<and> (\<forall>j<length rows. summarised (response_at service titleField apiKey numOfSentences j (rows ! j))) \<longrightarrow>
      write_calls (onButtonClick service host titleField rows apiKey numOfSentences flag) =
        [map (\<lambda>j. \<lparr>update_id = record_id (rows ! j),
                     update_fields = [(SUMMARY_FIELD_NAME,
                       content_of (response_at service titleField apiKey numOfSentences j (rows ! j)))]\<rparr>)
           [0..<length rows]])"
proof -
  have one: "calls (snd (updateRecordsInBatchesAsync host (Some us))) = [us]"
    if "1 \<le> length us \<and> length us \<le> 50"
    using that by (intro writer_one_call) simp_all
  have none: "calls (snd (updateRecordsInBatchesAsync host (Some []))) = []"
  proof -
    obtain n where "n \<le> (length ([]::record_update list) + 49) div 50"
      and "calls (snd (updateRecordsInBatchesAsync host (Some []))) =
             map (\<lambda>k. slice [] (50 * k) (50 * k + 50)) [0..<n]"
      by (rule writer_shape[where us="[]" and host=host], rule that)
    then show ?thesis by simp
  qed
  let ?us = "map (\<lambda>j. \<lparr>update_id = record_id (rows ! j),
                     update_fields = [(SUMMARY_FIELD_NAME,
                       content_of (response_at service titleField apiKey numOfSentences j (rows ! j)))]\<rparr>)
           [0..<length rows]"
  have run: "write_calls (onButtonClick service host titleField rows apiKey numOfSentences flag) = [?us]"
    if l: "1 \<le> length rows \<and> length rows \<le> 50"
      and s: "\<forall>j<length rows. summarised (response_at service titleField apiKey numOfSentences j (rows ! j))"
  proof -
    from s have "\<And>j. j < length rows \<Longrightarrow>
        summarised (response_at service titleField apiKey numOfSentences j (rows ! j))" by blast
    from getSummaries_all(1)[OF this]
    have f: "fst (getSummariesAsync service titleField rows apiKey numOfSentences flag) = Inr (Some ?us)"
      by (simp add: summary_update_def)
    show ?thesis
      unfolding run_write_calls[OF f] using l by (intro writer_one_call) simp_all
  qed
  from one none run show ?thesis by blast
qed

theorem single_batch_witness:
  "1 \<le> length [some_update] \<and> length [some_update] \<le> 50
   \<and> calls (snd (updateRecordsInBatchesAsync failing_second (Some [some_update]))) = [[some_update]]
   \<and> 1 \<le> length [row1, row2] \<and> length [row1, row2] \<le> 50
   \<and> summarised (response_at two_summaries URL_FIELD_NAME ''KEY'' [] 0 row1)
   \<and> summarised (response_at two_summaries URL_FIELD_NAME ''KEY'' [] 1 row2)
   \<and> write_calls (onButtonClick two_summaries resolving_host URL_FIELD_NAME [row1, row2] ''KEY'' [] False) =
       [[\<lparr>update_id = ''r1'', update_fields = [(SUMMARY_FIELD_NAME, Some (JStr ''S1''))]\<rparr>,
         \<lparr>update_id = ''r2'', update_fields = [(SUMMARY_FIELD_NAME, Some (JStr ''S2''))]\<rparr>]]"
proof -
  have u2: "[0..<2::nat] = [0, 1]" by (simp add: upt_rec)
  have t: "summarised (response_at two_summaries URL_FIELD_NAME ''KEY'' [] j r)" for j r
    by (simp add: summarised_def response_at_def two_summaries_def)
  have a: "calls (snd (updateRecordsInBatchesAsync failing_second (Some [some_update]))) = [[some_update]]"
    using single_batch[where host = failing_second and us = "[some_update]"] by simp
  have b: "write_calls (onButtonClick two_summaries resolving_host URL_FIELD_NAME [row1, row2] ''KEY'' [] False) =
       [[\<lparr>update_id = ''r1'', update_fields = [(SUMMARY_FIELD_NAME, Some (JStr ''S1''))]\<rparr>,
         \<lparr>update_id = ''r2'', update_fields = [(SUMMARY_FIELD_NAME, Some (JStr ''S2''))]\<rparr>]]"
    using single_batch[where host = resolving_host and rows = "[row1, row2]" and service = two_summaries
        and titleField = URL_FIELD_NAME and apiKey = "''KEY''" and numOfSentences = "[]" and flag = False]
      t
    by (simp add: u2 content_of_def response_at_def two_summaries_def row1_def row2_def)
  from a b t[of 0 row1] t[of 1 row2] show ?thesis by simp
qed

text \<open>
  C10: the writer's loop is a total function (its index grows by 50 towards the length of
  the list). It makes at most \<open>\<lceil>L / 50\<rceil>\<close> iterations, the \<open>k\<close>-th of them with the index
  \<open>50k\<close>; when every call resolves it makes exactly \<open>\<lceil>L / 50\<rceil>\<close> and ends with the index
  \<open>50 \<lceil>L / 50\<rceil>\<close>, which is not below the length.
\<close>

theorem writer_terminates:
  "(let R = updateRecordsInBatchesAsync host (Some us);
        N = (length us + 49) div 50
    in int N = \<lceil>real (length us) / 50\<rceil>
     \<and> length (calls (snd R)) \<le> N
     \<and> (\<forall>k<length (calls (snd R)).
           calls (snd R) ! k = slice us (k * MAX_RECORDS_PER_UPDATE) (k * MAX_RECORDS_PER_UPDATE + MAX_RECORDS_PER_UPDATE))
     \<and> ((\<forall>k<N. host k (slice us (50 * k) (50 * k + 50)) = Inr ()) \<longrightarrow>
          fst R = Inr () \<and> length (calls (snd R)) = N
          \<and> loop_i (snd R) = N * MAX_RECORDS_PER_UPDATE \<and> \<not> loop_i (snd R) < length us))"
proof -
  let ?R = "updateRecordsInBatchesAsync host (Some us)"
  let ?N = "(length us + 49) div 50"
  obtain n where n: "n \<le> ?N"
    and cs: "calls (snd ?R) = map (\<lambda>k. slice us (50 * k) (50 * k + 50)) [0..<n]"
    by (rule writer_shape[where us=us and host=host])
  have p1: "int ?N = \<lceil>real (length us) / 50\<rceil>"
    by (simp add: ceiling_50)
  have p2: "length (calls (snd ?R)) \<le> ?N"
    using n by (simp add: cs)
  have p3: "\<forall>k<length (calls (snd ?R)).
           calls (snd ?R) ! k = slice us (k * MAX_RECORDS_PER_UPDATE) (k * MAX_RECORDS_PER_UPDATE + MAX_RECORDS_PER_UPDATE)"
    by (simp add: cs MAX_RECORDS_PER_UPDATE_def mult.commute)
  have p4: "fst ?R = Inr () \<and> length (calls (snd ?R)) = ?N
          \<and> loop_i (snd ?R) = ?N * MAX_RECORDS_PER_UPDATE \<and> \<not> loop_i (snd ?R) < length us"
    if res: "\<forall>k<?N. host k (slice us (50 * k) (50 * k + 50)) = Inr ()"
  proof -
    from res have r: "\<And>k. k < ?N \<Longrightarrow> host k (slice us (50 * k) (50 * k + 50)) = Inr ()" by blast
    note writer_resolved[of us host, OF r]
    then have ok: "fst ?R = Inr ()"
      and all: "calls (snd ?R) = map (\<lambda>k. slice us (50 * k) (50 * k + 50)) [0..<?N]"
      and li: "loop_i (snd ?R) = 50 * ?N" by blast+
    have "length us \<le> 50 * ?N" by linarith
    with ok all li show ?thesis
      by (simp add: MAX_RECORDS_PER_UPDATE_def)
  qed
  from p1 p2 p3 p4 show ?thesis
    unfolding Let_def by blast
qed

theorem writer_terminates_witness:
  "resolving_host 0 (slice [some_update] 0 50) = Inr ()
   \<and> fst (updateRecordsInBatchesAsync resolving_host (Some [some_update])) = Inr ()
   \<and> length (calls (snd (updateRecordsInBatchesAsync resolving_host (Some [some_update])))) = 1
   \<and> loop_i (snd (updateRecordsInBatchesAsync resolving_host (Some [some_update]))) = 50"
  using writer_terminates[where host = resolving_host and us = "[some_update]"]
  by (simp add: Let_def resolving_host_def MAX_RECORDS_PER_UPDATE_def)

text \<open>
  C6: every request of a run goes to the URL made by concatenation, for the row at the
  same position, of the proxy prefix, the endpoint, \<^verbatim>\<open>&SM_API_KEY=\<close>, the credential,
  \<^verbatim>\<open>&SM_LENGTH=\<close>, the sentence count (the user's text, or \<^verbatim>\<open>7\<close> when that text is
  empty), \<^verbatim>\<open>&SM_URL=\<close> and the row's cell value as it is. And every row the loop
  reaches is requested: when the rows before the row at position \<open>k\<close> were summarised,
  the \<open>k\<close>-th request of the run is made, with that URL for that row. The witness has two
  rows, the first with a cell holding a space, \<^verbatim>\<open>?\<close> and \<^verbatim>\<open>&\<close>, which arrive in the
  URL unchanged.
\<close>

theorem request_urls:
  "(let R = getSummariesAsync service titleField rows apiKey numOfSentences flag
    in length (requests (snd R)) \<le> length rows
     \<and> requests (snd R) =
         map (\<lambda>r. CORS_PROXY @ API_ENDPOINT @ ''&SM_API_KEY='' @ apiKey @ ''&SM_LENGTH='' @
                  (if numOfSentences = [] then ''7'' else numOfSentences) @
                  ''&SM_URL='' @ getCellValueAsString r titleField)
           (take (length (requests (snd R))) rows)
     \<and> fetch_calls (onButtonClick service host titleField rows apiKey numOfSentences flag) = requests (snd R)
     \<and> (\<forall>k<length rows.
           (\<forall>j<k. summarised (response_at service titleField apiKey numOfSentences j (rows ! j))) \<longrightarrow>
             k < length (requests (snd R))
           \<and> requests (snd R) ! k =
               CORS_PROXY @ API_ENDPOINT @ ''&SM_API_KEY='' @ apiKey @ ''&SM_LENGTH='' @
               (if numOfSentences = [] then ''7'' else numOfSentences) @
               ''&SM_URL='' @ getCellValueAsString (rows ! k) titleField))"
proof -
  let ?R = "getSummariesAsync service titleField rows apiKey numOfSentences flag"
  let ?resp = "\<lambda>j. response_at service titleField apiKey numOfSentences j (rows ! j)"
  let ?url = "\<lambda>r. CORS_PROXY @ API_ENDPOINT @ ''&SM_API_KEY='' @ apiKey @ ''&SM_LENGTH='' @
                  (if numOfSentences = [] then ''7'' else numOfSentences) @
                  ''&SM_URL='' @ getCellValueAsString r titleField"
  obtain n where reqs: "requests (snd ?R) =
           map (\<lambda>r. request_url apiKey numOfSentences (getCellValueAsString r titleField)) (take (Suc n) rows)"
    and stop: "n < length rows \<Longrightarrow> \<not> summarised (?resp n)"
    by (rule getSummaries_shape[where rows=rows and service=service and tf=titleField
          and key=apiKey and num=numOfSentences and flag=flag], rule that)
  have u: "request_url apiKey numOfSentences (getCellValueAsString r titleField) = ?url r"
    for r :: airtable_record
    by (simp add: request_url_def)
  from reqs have p1: "length (requests (snd ?R)) \<le> length rows"
    and p2: "requests (snd ?R) = map ?url (take (length (requests (snd ?R))) rows)"
    by (simp_all add: request_url_def min_def)
  have p3: "fetch_calls (onButtonClick service host titleField rows apiKey numOfSentences flag)
      = requests (snd ?R)"
    by (rule run_fetch_calls)
  have p4: "k < length (requests (snd ?R)) \<and> requests (snd ?R) ! k = ?url (rows ! k)"
    if k: "k < length rows" and before: "\<forall>j<k. summarised (?resp j)" for k
  proof -
    have "\<not> n < k"
    proof
      assume "n < k"
      with k before stop show False by auto
    qed
    then have kn: "k < Suc n" by simp
    with k have len: "k < length (requests (snd ?R))" by (simp add: reqs)
    from kn k have "requests (snd ?R) ! k = ?url (rows ! k)"
      unfolding reqs by (simp add: u)
    with len show ?thesis by blast
  qed
  from p1 p2 p3 p4 show ?thesis
    unfolding Let_def by blast
qed

theorem request_urls_witness:
  "summarised (response_at empty_bodies URL_FIELD_NAME ''KEY'' [] 0 row_query)
   \<and> requests (snd (getSummariesAsync empty_bodies URL_FIELD_NAME [row_query, row2] ''KEY'' [] False)) =
     [CORS_PROXY @ API_ENDPOINT @ ''&SM_API_KEY=KEY&SM_LENGTH=7&SM_URL=a.com/x y?q=1&r=2'',
      CORS_PROXY @ API_ENDPOINT @ ''&SM_API_KEY=KEY&SM_LENGTH=7&SM_URL=b.com'']
   \<and> summarised (response_at empty_bodies URL_FIELD_NAME ''KEY'' ''3'' 0 row_query)
   \<and> requests (snd (getSummariesAsync empty_bodies URL_FIELD_NAME [row_query, row2] ''KEY'' ''3'' False)) =
     [CORS_PROXY @ API_ENDPOINT @ ''&SM_API_KEY=KEY&SM_LENGTH=3&SM_URL=a.com/x y?q=1&r=2'',
      CORS_PROXY @ API_ENDPOINT @ ''&SM_API_KEY=KEY&SM_LENGTH=3&SM_URL=b.com'']"
proof -
  have s: "summarised (response_at empty_bodies URL_FIELD_NAME ''KEY'' num 0 row_query)" for num
    by (simp add: summarised_def response_at_def empty_bodies_def)
  have two: "xs = [xs ! 0, xs ! 1]" if "length xs \<le> 2" and "1 < length xs" for xs :: "string list"
  proof -
    from that have "length xs = 2" by simp
    then show ?thesis
      by (cases xs; cases "tl xs") auto
  qed
  have r: "requests (snd (getSummariesAsync empty_bodies URL_FIELD_NAME [row_query, row2] ''KEY'' num False)) =
     [CORS_PROXY @ API_ENDPOINT @ ''&SM_API_KEY='' @ ''KEY'' @ ''&SM_LENGTH='' @
        (if num = [] then ''7'' else num) @ ''&SM_URL='' @ getCellValueAsString row_query URL_FIELD_NAME,
      CORS_PROXY @ API_ENDPOINT @ ''&SM_API_KEY='' @ ''KEY'' @ ''&SM_LENGTH='' @
        (if num = [] then ''7'' else num) @ ''&SM_URL='' @ getCellValueAsString row2 URL_FIELD_NAME]"
    for num
  proof -
    let ?reqs = "requests (snd (getSummariesAsync empty_bodies URL_FIELD_NAME [row_query, row2] ''KEY'' num False))"
    note t = request_urls[where rows = "[row_query, row2]" and service = empty_bodies
        and titleField = URL_FIELD_NAME and apiKey = "''KEY''" and numOfSentences = num and flag = False
        and host = resolving_host, unfolded Let_def]
    from t have le: "length ?reqs \<le> 2" by simp
    from t have all: "\<forall>k<length [row_query, row2].
           (\<forall>j<k. summarised (response_at empty_bodies URL_FIELD_NAME ''KEY'' num j ([row_query, row2] ! j))) \<longrightarrow>
             k < length ?reqs
           \<and> ?reqs ! k =
               CORS_PROXY @ API_ENDPOINT @ ''&SM_API_KEY='' @ ''KEY'' @ ''&SM_LENGTH='' @
               (if num = [] then ''7'' else num) @
               ''&SM_URL='' @ getCellValueAsString ([row_query, row2] ! k) URL_FIELD_NAME"
      by blast
    from all[rule_format, of 0] have k0: "?reqs ! 0 =
        CORS_PROXY @ API_ENDPOINT @ ''&SM_API_KEY='' @ ''KEY'' @ ''&SM_LENGTH='' @
        (if num = [] then ''7'' else num) @ ''&SM_URL='' @ getCellValueAsString row_query URL_FIELD_NAME"
      by simp
    from all[rule_format, of 1] s[of num] have k1: "1 < length ?reqs \<and> ?reqs ! 1 =
        CORS_PROXY @ API_ENDPOINT @ ''&SM_API_KEY='' @ ''KEY'' @ ''&SM_LENGTH='' @
        (if num = [] then ''7'' else num) @ ''&SM_URL='' @ getCellValueAsString row2 URL_FIELD_NAME"
      by simp
    from two[OF le] k1 have "?reqs = [?reqs ! 0, ?reqs ! 1]" by blast
    with k0 k1 show ?thesis by metis
  qed
  from r[of "[]"] r[of "''3''"] s[of "[]"] s[of "''3''"] show ?thesis
    by (simp add: row_query_def row2_def)
qed

text \<open>
  C7 as stated fails for a run that reads no response: with no rows and the flag left set
  by an earlier run, the run returns the empty list and the flag is still set, though no
  response of the run carried the sentinel.
\<close>

theorem stale_flag:
  "requests (snd (getSummariesAsync two_summaries URL_FIELD_NAME [] ''KEY'' [] True)) = []
   \<and> fst (getSummariesAsync two_summaries URL_FIELD_NAME [] ''KEY'' [] True) = Inr (Some [])
   \<and> invalidApi (snd (getSummariesAsync two_summaries URL_FIELD_NAME [] ''KEY'' [] True))"
  by (simp add: getSummariesAsync_def)

text \<open>
  C7, as the code has it. One turn of the loop: a response with the sentinel sets the flag
  and ends the run with \<^verbatim>\<open>undefined\<close>; a summarised response clears the flag and the loop
  goes on with the row's update appended; a response whose message cannot be read (a fault,
  or the body \<^verbatim>\<open>null\<close>) ends the run and leaves the flag. So after a run the flag is the
  one it started with when no response was read, and otherwise it is set exactly when the
  last response read carried the sentinel, in which case the run returned \<^verbatim>\<open>undefined\<close>.
\<close>

theorem flag_after_run:
  "(carries_sentinel (response_at service tf key num (length (requests s)) r) \<longrightarrow>
      for_records service tf key num (r # rest) s =
        (Inr None, s\<lparr>requests := requests s @ [request_url key num (getCellValueAsString r tf)],
                      invalidApi := True\<rparr>))
   \<and> (summarised (response_at service tf key num (length (requests s)) r) \<longrightarrow>
      for_records service tf key num (r # rest) s =
        for_records service tf key num rest
          (s\<lparr>requests := requests s @ [request_url key num (getCellValueAsString r tf)],
             invalidApi := False,
             recordUpdates := recordUpdates s @
               [\<lparr>update_id = record_id r,
                 update_fields = [(SUMMARY_FIELD_NAME,
                   content_of (response_at service tf key num (length (requests s)) r))]\<rparr>]\<rparr>))
   \<and> (\<not> message_read (response_at service tf key num (length (requests s)) r) \<longrightarrow>
      for_records service tf key num (r # rest) s =
        (Inl (fault_of (response_at service tf key num (length (requests s)) r)),
         s\<lparr>requests := requests s @ [request_url key num (getCellValueAsString r tf)]\<rparr>))
   \<and> (let R = getSummariesAsync service tf rows key num flag;
           inspected = filter message_read
             (map (\<lambda>j. response_at service tf key num j (rows ! j)) [0..<length (requests (snd R))])
       in invalidApi (snd R) = (if inspected = [] then flag else carries_sentinel (last inspected))
        \<and> (inspected \<noteq> [] \<and> carries_sentinel (last inspected) \<longrightarrow> fst R = Inr None))"
proof -
  let ?r0 = "response_at service tf key num (length (requests s)) r"
  have st1: "for_records service tf key num (r # rest) s =
        (Inr None, s\<lparr>requests := requests s @ [request_url key num (getCellValueAsString r tf)],
                      invalidApi := True\<rparr>)"
    if "carries_sentinel ?r0"
    using that sentinel_not_summarised[OF that]
    by (simp add: for_records_Cons Let_def response_at_def)
  have st2: "for_records service tf key num (r # rest) s =
        for_records service tf key num rest
          (s\<lparr>requests := requests s @ [request_url key num (getCellValueAsString r tf)],
             invalidApi := False,
             recordUpdates := recordUpdates s @
               [\<lparr>update_id = record_id r,
                 update_fields = [(SUMMARY_FIELD_NAME, content_of ?r0)]\<rparr>]\<rparr>)"
    if "summarised ?r0"
    using that by (simp add: for_records_Cons Let_def response_at_def summary_update_def)
  have st3: "for_records service tf key num (r # rest) s =
        (Inl (fault_of ?r0),
         s\<lparr>requests := requests s @ [request_url key num (getCellValueAsString r tf)]\<rparr>)"
    if "\<not> message_read ?r0"
    using that summarised_read[of ?r0] sentinel_read[of ?r0]
    by (auto simp: for_records_Cons Let_def response_at_def)
  let ?R = "getSummariesAsync service tf rows key num flag"
  let ?resp = "\<lambda>j. response_at service tf key num j (rows ! j)"
  let ?ins = "filter message_read (map ?resp [0..<length (requests (snd ?R))])"
  obtain m where m: "m \<le> length rows"
    and oks: "\<And>j. j < m \<Longrightarrow> summarised (?resp j)"
    and reqs: "requests (snd ?R) =
           map (\<lambda>r. request_url key num (getCellValueAsString r tf)) (take (Suc m) rows)"
    and flg: "invalidApi (snd ?R) =
           (if m < length rows \<and> carries_sentinel (?resp m) then True else if m = 0 then flag else False)"
    and res: "fst ?R =
           (if m = length rows then Inr (Some (recordUpdates (snd ?R)))
            else if carries_sentinel (?resp m) then Inr None
            else Inl (fault_of (?resp m)))"
    and stop: "m < length rows \<Longrightarrow> \<not> summarised (?resp m)"
    by (rule getSummaries_shape[where rows=rows and service=service and tf=tf
          and key=key and num=num and flag=flag], rule that)
  have pre: "filter message_read (map ?resp [0..<m]) = map ?resp [0..<m]"
    using oks by (rule filter_read_prefix)
  have lastm: "\<not> carries_sentinel (last (map ?resp [0..<m]))" if "0 < m"
  proof -
    from that have "last (map ?resp [0..<m]) = ?resp (m - 1)" by (rule last_map_upt)
    moreover from that have "summarised (?resp (m - 1))" by (intro oks) simp
    ultimately show ?thesis using sentinel_not_summarised by auto
  qed
  have fin: "invalidApi (snd ?R) = (if ?ins = [] then flag else carries_sentinel (last ?ins))
        \<and> (?ins \<noteq> [] \<and> carries_sentinel (last ?ins) \<longrightarrow> fst ?R = Inr None)"
  proof (cases "m < length rows")
    case False
    with m have ml: "m = length rows" by simp
    then have len: "length (requests (snd ?R)) = m" by (simp add: reqs)
    have ins: "?ins = map ?resp [0..<m]" unfolding len by (rule pre)
    show ?thesis
    proof (cases "m = 0")
      case True
      with ins flg ml show ?thesis by simp
    next
      case False
      then have "0 < m" by simp
      from lastm[OF this] ins flg ml False show ?thesis by simp
    qed
  next
    case True
    then have len: "length (requests (snd ?R)) = Suc m" by (simp add: reqs)
    have split: "?ins = map ?resp [0..<m] @ (if message_read (?resp m) then [?resp m] else [])"
      unfolding len by (simp add: pre)
    show ?thesis
    proof (cases "carries_sentinel (?resp m)")
      case c: True
      then have "message_read (?resp m)" by (rule sentinel_read)
      with split have "?ins = map ?resp [0..<m] @ [?resp m]" by simp
      then have "?ins \<noteq> []" and "last ?ins = ?resp m" by simp_all
      with c True flg res show ?thesis by simp
    next
      case c: False
      with stop[OF True] read_cases[of "?resp m"] have "\<not> message_read (?resp m)" by blast
      with split have ins: "?ins = map ?resp [0..<m]" by simp
      show ?thesis
      proof (cases "m = 0")
        case True
        with ins flg c show ?thesis by simp
      next
        case False
        then have "0 < m" by simp
        from lastm[OF this] ins flg c False show ?thesis by simp
      qed
    qed
  qed
  from st1 st2 st3 fin show ?thesis
    unfolding Let_def by blast
qed

theorem flag_after_run_witness:
  "carries_sentinel (response_at rejects_second URL_FIELD_NAME ''KEY'' [] 1 row2)
   \<and> invalidApi (snd (getSummariesAsync rejects_second URL_FIELD_NAME [row1, row2] ''KEY'' [] False))
   \<and> fst (getSummariesAsync rejects_second URL_FIELD_NAME [row1, row2] ''KEY'' [] False) = Inr None
   \<and> summarised (response_at two_summaries URL_FIELD_NAME ''KEY'' [] 1 row2)
   \<and> \<not> invalidApi (snd (getSummariesAsync two_summaries URL_FIELD_NAME [row1, row2] ''KEY'' [] True))"
proof -
  have u2: "[0..<2::nat] = [0, 1]" by (simp add: upt_rec)
  have c: "carries_sentinel (response_at rejects_second URL_FIELD_NAME ''KEY'' [] 1 row2)"
    by (simp add: carries_sentinel_def response_at_def rejects_second_def)
  have s0: "summarised (response_at rejects_second URL_FIELD_NAME ''KEY'' [] 0 row1)"
    by (simp add: summarised_def response_at_def rejects_second_def)
  have t: "summarised (response_at two_summaries URL_FIELD_NAME ''KEY'' [] j r)" for j r
    by (simp add: summarised_def response_at_def two_summaries_def)
  have k: "(1::nat) < length [row1, row2]" by simp
  have l1: "length (requests (snd (getSummariesAsync rejects_second URL_FIELD_NAME [row1, row2] ''KEY'' [] False))) = 2"
    using getSummaries_stopped(2)[where rows = "[row1, row2]" and service = rejects_second
        and tf = URL_FIELD_NAME and key = "''KEY''" and num = "[]" and flag = False and k = 1]
      sentinel_not_summarised[OF c] s0
    by simp
  have l2: "length (requests (snd (getSummariesAsync two_summaries URL_FIELD_NAME [row1, row2] ''KEY'' [] True))) = 2"
    using getSummaries_all(2)[where rows = "[row1, row2]" and service = two_summaries
        and tf = URL_FIELD_NAME and key = "''KEY''" and num = "[]" and flag = True, OF t]
    by simp
  have a: "invalidApi (snd (getSummariesAsync rejects_second URL_FIELD_NAME [row1, row2] ''KEY'' [] False))
      \<and> fst (getSummariesAsync rejects_second URL_FIELD_NAME [row1, row2] ''KEY'' [] False) = Inr None"
    using flag_after_run[where rows = "[row1, row2]" and service = rejects_second
        and tf = URL_FIELD_NAME and key = "''KEY''" and num = "[]" and flag = False]
      c s0 sentinel_read[OF c] summarised_read[OF s0]
    by (simp add: Let_def l1 u2)
  have b: "\<not> invalidApi (snd (getSummariesAsync two_summaries URL_FIELD_NAME [row1, row2] ''KEY'' [] True))"
    using flag_after_run[where rows = "[row1, row2]" and service = two_summaries
        and tf = URL_FIELD_NAME and key = "''KEY''" and num = "[]" and flag = True]
      t[of 0 row1] t[of 1 row2] summarised_read[OF t[of 0 row1]] summarised_read[OF t[of 1 row2]]
      sentinel_not_summarised[of "response_at two_summaries URL_FIELD_NAME ''KEY'' [] 1 row2"]
    by (auto simp: Let_def l2 u2)
  from a b c t[of 1 row2] show ?thesis by blast
qed

text \<open>
  C8: every update the loop accumulates has exactly one member in its fields, named by
  \<open>SUMMARY_FIELD_NAME\<close>, and the id of one of the rows; the list the loop returns is that
  accumulated list; and every update of every batch a click writes is of that kind.
\<close>

theorem only_summary_written:
  "(let R = getSummariesAsync service titleField rows apiKey numOfSentences flag;
        c = onButtonClick service host titleField rows apiKey numOfSentences flag
    in (\<forall>u\<in>set (recordUpdates (snd R)).
          map fst (update_fields u) = [SUMMARY_FIELD_NAME] \<and> update_id u \<in> record_id ` set rows)
     \<and> (\<forall>us. fst R = Inr (Some us) \<longrightarrow> us = recordUpdates (snd R))
     \<and> (\<forall>b\<in>set (write_calls c). \<forall>u\<in>set b.
          map fst (update_fields u) = [SUMMARY_FIELD_NAME] \<and> update_id u \<in> record_id ` set rows))"
proof -
  let ?R = "getSummariesAsync service titleField rows apiKey numOfSentences flag"
  let ?c = "onButtonClick service host titleField rows apiKey numOfSentences flag"
  let ?good = "\<lambda>u. map fst (update_fields u) = [SUMMARY_FIELD_NAME] \<and> update_id u \<in> record_id ` set rows"
  obtain m where m: "m \<le> length rows"
    and ups: "recordUpdates (snd ?R) =
           map (\<lambda>j. summary_update (rows ! j)
                  (response_at service titleField apiKey numOfSentences j (rows ! j))) [0..<m]"
    and res: "fst ?R =
           (if m = length rows then Inr (Some (recordUpdates (snd ?R)))
            else if carries_sentinel (response_at service titleField apiKey numOfSentences m (rows ! m))
            then Inr None
            else Inl (fault_of (response_at service titleField apiKey numOfSentences m (rows ! m))))"
    by (rule getSummaries_shape[where rows=rows and service=service and tf=titleField
          and key=apiKey and num=numOfSentences and flag=flag], rule that)
  have p1: "\<forall>u\<in>set (recordUpdates (snd ?R)). ?good u"
  proof
    fix u assume "u \<in> set (recordUpdates (snd ?R))"
    then obtain j where j: "j < m"
      and u: "u = summary_update (rows ! j) (response_at service titleField apiKey numOfSentences j (rows ! j))"
      unfolding ups by auto
    from j m have "rows ! j \<in> set rows" by simp
    then show "?good u"
      unfolding u by (simp add: summary_update_key summary_update_id)
  qed
  have p2: "\<forall>us. fst ?R = Inr (Some us) \<longrightarrow> us = recordUpdates (snd ?R)"
    using res by (auto split: if_splits)
  have p3: "\<forall>b\<in>set (write_calls ?c). \<forall>u\<in>set b. ?good u"
  proof (cases "\<exists>us. fst ?R = Inr (Some us)")
    case False
    then have "write_calls ?c = []"
      by (intro no_list_no_write) blast
    then show ?thesis by simp
  next
    case True
    then obtain us where us: "fst ?R = Inr (Some us)" by blast
    with p2 have eq: "us = recordUpdates (snd ?R)" by blast
    obtain n where cs: "calls (snd (updateRecordsInBatchesAsync host (Some us))) =
           map (\<lambda>k. slice us (50 * k) (50 * k + 50)) [0..<n]"
      by (rule writer_shape[where us=us and host=host], rule that)
    show ?thesis
    proof (intro ballI)
      fix b u assume b: "b \<in> set (write_calls ?c)" and u: "u \<in> set b"
      from b have "b \<in> set (map (\<lambda>k. slice us (50 * k) (50 * k + 50)) [0..<n])"
        unfolding run_write_calls[OF us] cs .
      then obtain k where "b = slice us (50 * k) (50 * k + 50)" by auto
      with u set_slice[of us "50 * k" "50 * k + 50"] have "u \<in> set us" by blast
      with p1 eq show "?good u" by blast
    qed
  qed
  from p1 p2 p3 show ?thesis
    unfolding Let_def by blast
qed

theorem only_summary_written_witness:
  "write_calls (onButtonClick two_summaries resolving_host URL_FIELD_NAME [row1, row2] ''KEY'' [] False) =
     [[\<lparr>update_id = ''r1'', update_fields = [(''Summary'', Some (JStr ''S1''))]\<rparr>,
       \<lparr>update_id = ''r2'', update_fields = [(''Summary'', Some (JStr ''S2''))]\<rparr>]]
   \<and> map fst (update_fields \<lparr>update_id = ''r1'', update_fields = [(''Summary'', Some (JStr ''S1''))]\<rparr>)
       = [SUMMARY_FIELD_NAME]
   \<and> update_id \<lparr>update_id = ''r2'', update_fields = [(''Summary'', Some (JStr ''S2''))]\<rparr>
       \<in> record_id ` set [row1, row2]"
proof -
  have u2: "[0..<2::nat] = [0, 1]" by (simp add: upt_rec)
  have t: "summarised (response_at two_summaries URL_FIELD_NAME ''KEY'' [] j r)" for j r
    by (simp add: summarised_def response_at_def two_summaries_def)
  let ?us = "[\<lparr>update_id = ''r1'', update_fields = [(''Summary'', Some (JStr ''S1''))]\<rparr>,
       \<lparr>update_id = ''r2'', update_fields = [(''Summary'', Some (JStr ''S2''))]\<rparr>]"
  have f: "fst (getSummariesAsync two_summaries URL_FIELD_NAME [row1, row2] ''KEY'' [] False) = Inr (Some ?us)"
    using getSummaries_all(1)[where rows = "[row1, row2]" and service = two_summaries
        and tf = URL_FIELD_NAME and key = "''KEY''" and num = "[]" and flag = False, OF t]
    by (simp add: u2 summary_update_def content_of_def response_at_def two_summaries_def
          row1_def row2_def SUMMARY_FIELD_NAME_def)
  have w: "write_calls (onButtonClick two_summaries resolving_host URL_FIELD_NAME [row1, row2] ''KEY'' [] False)
      = [?us]"
    unfolding run_write_calls[OF f] by (rule writer_one_call) simp_all
  from only_summary_written[where rows = "[row1, row2]" and service = two_summaries
        and titleField = URL_FIELD_NAME and apiKey = "''KEY''" and numOfSentences = "[]" and flag = False
        and host = resolving_host]
  show ?thesis
    unfolding Let_def w by simp
qed

text \<open>
  C9: when the rows up to position \<open>k\<close> are summarised and the body for row \<open>k\<close> has no
  \<^verbatim>\<open>sm_api_content\<close>, the update at position \<open>k\<close> is the one of that row with
  \<^verbatim>\<open>Summary\<close> holding \<^verbatim>\<open>undefined\<close>, the next row (if any) is requested, and when all
  rows are summarised the loop returns one update per row. Two services whose responses
  agree on the fault and on the members \<^verbatim>\<open>sm_api_message\<close> and \<^verbatim>\<open>sm_api_content\<close> give
  the same run: nothing else of a response is inspected.
\<close>

theorem missing_content:
  "(k < length rows
      \<and> (\<forall>j\<le>k. summarised (response_at service titleField apiKey numOfSentences j (rows ! j)))
      \<and> response_at service titleField apiKey numOfSentences k (rows ! k) = Inr body
      \<and> get_prop body ''sm_api_content'' = Inr None \<longrightarrow>
    (let R = getSummariesAsync service titleField rows apiKey numOfSentences flag
     in k < length (recordUpdates (snd R))
      \<and> recordUpdates (snd R) ! k =
           \<lparr>update_id = record_id (rows ! k), update_fields = [(SUMMARY_FIELD_NAME, None)]\<rparr>
      \<and> (Suc k < length rows \<longrightarrow> Suc k < length (requests (snd R)))
      \<and> ((\<forall>j<length rows. summarised (response_at service titleField apiKey numOfSentences j (rows ! j))) \<longrightarrow>
            fst R = Inr (Some (recordUpdates (snd R))) \<and> length (recordUpdates (snd R)) = length rows)))
   \<and> ((\<forall>j u. view (service j u) = view (service' j u)) \<longrightarrow>
        getSummariesAsync service titleField rows apiKey numOfSentences flag =
        getSummariesAsync service' titleField rows apiKey numOfSentences flag)"
proof -
  let ?R = "getSummariesAsync service titleField rows apiKey numOfSentences flag"
  let ?resp = "\<lambda>j. response_at service titleField apiKey numOfSentences j (rows ! j)"
  have a: "k < length (recordUpdates (snd ?R))
      \<and> recordUpdates (snd ?R) ! k =
           \<lparr>update_id = record_id (rows ! k), update_fields = [(SUMMARY_FIELD_NAME, None)]\<rparr>
      \<and> (Suc k < length rows \<longrightarrow> Suc k < length (requests (snd ?R)))
      \<and> ((\<forall>j<length rows. summarised (?resp j)) \<longrightarrow>
            fst ?R = Inr (Some (recordUpdates (snd ?R))) \<and> length (recordUpdates (snd ?R)) = length rows)"
    if k: "k < length rows" and upto: "\<forall>j\<le>k. summarised (?resp j)"
      and body: "?resp k = Inr body" and none: "get_prop body ''sm_api_content'' = Inr None"
  proof -
    obtain m where m: "m \<le> length rows"
      and ups: "recordUpdates (snd ?R) = map (\<lambda>j. summary_update (rows ! j) (?resp j)) [0..<m]"
      and reqs: "requests (snd ?R) =
           map (\<lambda>r. request_url apiKey numOfSentences (getCellValueAsString r titleField)) (take (Suc m) rows)"
      and res: "fst ?R =
           (if m = length rows then Inr (Some (recordUpdates (snd ?R)))
            else if carries_sentinel (?resp m) then Inr None
            else Inl (fault_of (?resp m)))"
      and stop: "m < length rows \<Longrightarrow> \<not> summarised (?resp m)"
      by (rule getSummaries_shape[where rows=rows and service=service and tf=titleField
            and key=apiKey and num=numOfSentences and flag=flag], rule that)
    have km: "k < m"
    proof (rule ccontr)
      assume "\<not> k < m"
      then have "m \<le> k" by simp
      with k stop upto show False by auto
    qed
    have c: "content_of (?resp k) = None"
      by (simp add: body content_of_def none)
    from km have p1: "k < length (recordUpdates (snd ?R))" by (simp add: ups)
    from km have p2: "recordUpdates (snd ?R) ! k =
           \<lparr>update_id = record_id (rows ! k), update_fields = [(SUMMARY_FIELD_NAME, None)]\<rparr>"
      by (simp add: ups summary_update_def c)
    from km have p3: "Suc k < length rows \<longrightarrow> Suc k < length (requests (snd ?R))"
      by (simp add: reqs)
    have p4: "fst ?R = Inr (Some (recordUpdates (snd ?R))) \<and> length (recordUpdates (snd ?R)) = length rows"
      if "\<forall>j<length rows. summarised (?resp j)"
    proof -
      from that stop m have "m = length rows"
        by (cases "m < length rows") auto
      with res ups show ?thesis by simp
    qed
    from p1 p2 p3 p4 show ?thesis by blast
  qed
  have b: "?R = getSummariesAsync service' titleField rows apiKey numOfSentences flag"
    if "\<forall>j u. view (service j u) = view (service' j u)"
  proof -
    from that have "\<And>j u. view (service j u) = view (service' j u)" by blast
    from for_records_view[of service service', OF this] show ?thesis
      by (simp add: getSummariesAsync_def)
  qed
  from a b show ?thesis
    unfolding Let_def by blast
qed

theorem missing_content_witness:
  "response_at empty_bodies URL_FIELD_NAME ''KEY'' [] 0 row1 = Inr (JObj [])
   \<and> get_prop (JObj []) ''sm_api_content'' = Inr None
   \<and> summarised (response_at empty_bodies URL_FIELD_NAME ''KEY'' [] 0 row1)
   \<and> fst (getSummariesAsync empty_bodies URL_FIELD_NAME [row1] ''KEY'' [] False) =
       Inr (Some [\<lparr>update_id = ''r1'', update_fields = [(SUMMARY_FIELD_NAME, None)]\<rparr>])
   \<and> view (other_members 0 ''u'') = view (empty_bodies 0 ''u'')
   \<and> getSummariesAsync other_members URL_FIELD_NAME [row1] ''KEY'' [] False =
       getSummariesAsync empty_bodies URL_FIELD_NAME [row1] ''KEY'' [] False"
proof -
  have r: "response_at empty_bodies URL_FIELD_NAME ''KEY'' [] 0 row1 = Inr (JObj [])"
    by (simp add: response_at_def empty_bodies_def)
  have g: "get_prop (JObj []) ''sm_api_content'' = Inr None" by simp
  have s: "summarised (response_at empty_bodies URL_FIELD_NAME ''KEY'' [] 0 row1)"
    by (simp add: r summarised_def)
  have v: "view (other_members j u) = view (empty_bodies j u)" for j u
    by (simp add: view_def other_members_def empty_bodies_def)
  note m1 = missing_content[where k = 0 and rows = "[row1]" and service = empty_bodies
      and service' = other_members and titleField = URL_FIELD_NAME and apiKey = "''KEY''"
      and numOfSentences = "[]" and flag = False and body = "JObj []"]
  note m2 = missing_content[where k = 0 and rows = "[row1]" and service = other_members
      and service' = empty_bodies and titleField = URL_FIELD_NAME and apiKey = "''KEY''"
      and numOfSentences = "[]" and flag = False and body = "JObj []"]
  let ?R = "getSummariesAsync empty_bodies URL_FIELD_NAME [row1] ''KEY'' [] False"
  from m1 r g s have "recordUpdates (snd ?R) ! 0 =
           \<lparr>update_id = record_id row1, update_fields = [(SUMMARY_FIELD_NAME, None)]\<rparr>
     \<and> fst ?R = Inr (Some (recordUpdates (snd ?R))) \<and> length (recordUpdates (snd ?R)) = 1"
    by (simp add: Let_def)
  then have a: "fst ?R = Inr (Some [\<lparr>update_id = ''r1'', update_fields = [(SUMMARY_FIELD_NAME, None)]\<rparr>])"
    by (cases "recordUpdates (snd ?R)") (simp_all add: row1_def)
  from m2 v have b: "getSummariesAsync other_members URL_FIELD_NAME [row1] ''KEY'' [] False = ?R"
    by blast
  from r g s a b v[of 0 "''u''"] show ?thesis by blast
qed

end
